theory Spec2Isabelle
  imports Main "HOL-Library.Word" "HOL-Library.Multiset" "HOL-Library.Signed_Division"
begin

section \<open>Data model of sonLibList.c\<close>

text \<open>
  \<^verbatim>\<open>int32_t\<close> is a 32-bit word. It is read as a two's complement number with \<open>sint\<close> and
  compared with the signed orders \<open><s\<close> and \<open>\<le>s\<close>; \<open>+\<close>, \<open>-\<close> and \<open>*\<close> wrap around, which is
  what the compiled code does where C leaves signed overflow undefined.
\<close>

type_synonym int32 = "32 word"

text \<open>\<^verbatim>\<open>void *\<close>: the null pointer or an address.\<close>

datatype ptr = NULL | Addr nat

text \<open>
  One slot of the array \<^verbatim>\<open>list->list\<close>. A slot that \<^verbatim>\<open>calloc\<close> has zeroed or that the code
  has written holds a pointer; a slot fresh from \<^verbatim>\<open>malloc\<close> is indeterminate.
\<close>

datatype cell = Indeterminate | Cell ptr

text \<open>How a call ends when it does not return: a failed \<^verbatim>\<open>assert\<close>, or a memory error.\<close>

datatype fault =
  AssertionFailure | NullDereference | OutOfBounds | IndeterminateRead | AllocationFailure

text \<open>
  What \<^verbatim>\<open>stList_destruct\<close> does to the world outside the struct: calls of the registered
  destructor (a function pointer, here its address) and the two calls of \<^verbatim>\<open>free\<close>.
\<close>

datatype event = Destructor_call nat ptr | Free_buffer | Free_struct

text \<open>
  \<^verbatim>\<open>struct _stList { void **list; int32_t length; int32_t maxLength;
  void (*destructElement)(void *); }\<close>, declared in a header of the repository: the fields are
  those \<^verbatim>\<open>sonLibList.c\<close> uses, with the types it uses them at (\<^verbatim>\<open>&list->maxLength\<close> is
  passed as an \<^verbatim>\<open>int32_t *\<close>). The array pointer \<^verbatim>\<open>list\<close> is \<open>None\<close> when it is
  \<^verbatim>\<open>NULL\<close> and otherwise the allocated block, one \<open>cell\<close> per slot; the function pointer is
  \<open>None\<close> when it is \<^verbatim>\<open>NULL\<close>. A parameter of type \<^verbatim>\<open>stList *\<close> is an \<open>stList option\<close>:
  \<open>None\<close> for the \<^verbatim>\<open>NULL\<close> pointer, \<open>Some l\<close> for a pointer to a struct in state \<open>l\<close>. A
  function that mutates its list returns the state of the struct after the call.
\<close>

record stList =
  list_f :: "cell list option"
  length_f :: int32
  maxLength :: int32
  destructElement :: "nat option"

text \<open>\<^verbatim>\<open>struct _stListIterator { stList *list; int32_t index; }\<close>\<close>

record stListIterator =
  it_list :: "stList option"
  it_index :: int32

text \<open>Sequencing of calls that may fault: the first fault ends the run.\<close>

definition bindF :: "fault + 'a \<Rightarrow> ('a \<Rightarrow> fault + 'b) \<Rightarrow> fault + 'b" where
  "bindF m f = (case m of Inl e \<Rightarrow> Inl e | Inr x \<Rightarrow> f x)"

lemma bindF_cong [fundef_cong]:
  "m = m' \<Longrightarrow> (\<And>x. m' = Inr x \<Longrightarrow> f x = f' x) \<Longrightarrow> bindF m f = bindF m' f'"
  by (cases m') (simp_all add: bindF_def)

lemma bindF_Inl [simp]: "bindF (Inl e) f = Inl e"
  by (simp add: bindF_def)

lemma bindF_Inr [simp]: "bindF (Inr x) f = f x"
  by (simp add: bindF_def)

definition MINIMUM_ARRAY_EXPAND_SIZE :: int32 where
  "MINIMUM_ARRAY_EXPAND_SIZE = 5"

subsection \<open>Memory\<close>

text \<open>
  Modelled from the spec: \<^verbatim>\<open>st_malloc\<close> and \<^verbatim>\<open>st_calloc\<close> are defined in another file of the
  repository. Allocation failure is fatal (section 7), so a call that returns gives a block;
  a negative slot count is a request no allocator grants. \<^verbatim>\<open>st_calloc\<close> zeroes the block:
  every slot holds the null marker (section 4.1).
\<close>

definition st_malloc :: "int32 \<Rightarrow> fault + cell list" where
  "st_malloc n =
     (if 0 \<le>s n then Inr (replicate (nat (sint n)) Indeterminate) else Inl AllocationFailure)"

definition st_calloc :: "int32 \<Rightarrow> fault + cell list" where
  "st_calloc n =
     (if 0 \<le>s n then Inr (replicate (nat (sint n)) (Cell NULL)) else Inl AllocationFailure)"

text \<open>\<^verbatim>\<open>memcpy(dst, src, n * sizeof(void *))\<close>, which returns \<^verbatim>\<open>dst\<close>.\<close>

definition memcpy_cells :: "cell list \<Rightarrow> cell list option \<Rightarrow> int32 \<Rightarrow> fault + cell list" where
  "memcpy_cells dst src n =
     (if n = 0 then Inr dst
      else if \<not> 0 \<le>s n then Inl OutOfBounds
      else case src of
             None \<Rightarrow> Inl NullDereference
           | Some s \<Rightarrow>
               if nat (sint n) \<le> length s \<and> nat (sint n) \<le> length dst
               then Inr (take (nat (sint n)) s @ drop (nat (sint n)) dst)
               else Inl OutOfBounds)"

text \<open>\<^verbatim>\<open>list->list[index]\<close> read.\<close>

definition read_cell :: "cell list option \<Rightarrow> int32 \<Rightarrow> fault + ptr" where
  "read_cell buf i =
     (case buf of
        None \<Rightarrow> Inl NullDereference
      | Some b \<Rightarrow>
          if 0 \<le>s i \<and> nat (sint i) < length b
          then (case b ! nat (sint i) of Indeterminate \<Rightarrow> Inl IndeterminateRead | Cell v \<Rightarrow> Inr v)
          else Inl OutOfBounds)"

text \<open>\<^verbatim>\<open>list->list[index] = item\<close>.\<close>

definition write_cell :: "cell list option \<Rightarrow> int32 \<Rightarrow> ptr \<Rightarrow> fault + cell list" where
  "write_cell buf i item =
     (case buf of
        None \<Rightarrow> Inl NullDereference
      | Some b \<Rightarrow>
          if 0 \<le>s i \<and> nat (sint i) < length b
          then Inr (b[nat (sint i) := Cell item])
          else Inl OutOfBounds)"

section \<open>The functions\<close>

text \<open>
  Every function of \<^verbatim>\<open>sonLibList.c\<close> but \<^verbatim>\<open>stList_getSortedSet\<close> and
  \<^verbatim>\<open>stList_convertToSortedSet\<close>, which build a sorted set, a type of another file. A
  failed \<^verbatim>\<open>assert\<close> ends the run with \<open>Inl AssertionFailure\<close>. A \<^verbatim>\<open>for\<close> loop is a recursive
  function of the loop counter (and of what the body changes), named after its function.
\<close>

subsection \<open>Construction\<close>

definition stList_construct3 :: "int32 \<Rightarrow> nat option \<Rightarrow> fault + stList option" where
  "stList_construct3 len destructElement' =
     (if \<not> 0 \<le>s len then Inl AssertionFailure
      else bindF (st_calloc len) (\<lambda>block.
        Inr (Some \<lparr>list_f = Some block, length_f = len, maxLength = len,
                   destructElement = destructElement'\<rparr>)))"

definition stList_construct :: "fault + stList option" where
  "stList_construct = stList_construct3 0 None"

definition stList_construct2 :: "int32 \<Rightarrow> fault + stList option" where
  "stList_construct2 size' = stList_construct3 size' None"

subsection \<open>Length, get, set\<close>

definition stList_length :: "stList option \<Rightarrow> int32" where
  "stList_length list = (case list of None \<Rightarrow> 0 | Some l \<Rightarrow> length_f l)"

definition stList_get :: "stList option \<Rightarrow> int32 \<Rightarrow> fault + ptr" where
  "stList_get list index =
     (if \<not> 0 \<le>s index then Inl AssertionFailure
      else if \<not> index <s stList_length list then Inl AssertionFailure
      else case list of
             None \<Rightarrow> Inl NullDereference
           | Some l \<Rightarrow> read_cell (list_f l) index)"

definition stList_set :: "stList option \<Rightarrow> int32 \<Rightarrow> ptr \<Rightarrow> fault + stList option" where
  "stList_set list index item =
     (if \<not> 0 \<le>s index then Inl AssertionFailure
      else if \<not> index <s stList_length list then Inl AssertionFailure
      else case list of
             None \<Rightarrow> Inl NullDereference
           | Some l \<Rightarrow>
               bindF (write_cell (list_f l) index item) (\<lambda>b. Inr (Some (l\<lparr>list_f := Some b\<rparr>))))"

subsection \<open>Append\<close>

text \<open>
  \<^verbatim>\<open>st_list_appendP(current, &currentSize, newSize, base)\<close> with \<^verbatim>\<open>base = sizeof(void *)\<close>, one
  slot: the sizes count slots. The byte counts \<^verbatim>\<open>((int64_t)base)*newSize\<close> are computed in 64
  bits and cannot overflow. The result is the new block and the value stored through
  \<^verbatim>\<open>currentSize\<close>. The old block is freed; nothing refers to it afterwards.
\<close>

definition st_list_appendP ::
  "cell list option \<Rightarrow> int32 \<Rightarrow> int32 \<Rightarrow> fault + (cell list option \<times> int32)" where
  "st_list_appendP current currentSize newSize =
     (if \<not> currentSize \<le>s newSize then Inl AssertionFailure
      else bindF (st_malloc newSize) (\<lambda>block.
           bindF (memcpy_cells block current currentSize) (\<lambda>new.
           Inr (Some new, newSize))))"

definition stList_append :: "stList option \<Rightarrow> ptr \<Rightarrow> fault + stList option" where
  "stList_append list item =
     (case list of
        None \<Rightarrow> Inl NullDereference
      | Some l \<Rightarrow>
          bindF (if maxLength l \<le>s stList_length list
                 then bindF (st_list_appendP (list_f l) (maxLength l)
                               (maxLength l * 2 + MINIMUM_ARRAY_EXPAND_SIZE))
                        (\<lambda>(new, size'). Inr (l\<lparr>list_f := new, maxLength := size'\<rparr>))
                 else Inr l) (\<lambda>l1.
          bindF (write_cell (list_f l1) (length_f l1) item) (\<lambda>b.
          Inr (Some (l1\<lparr>list_f := Some b, length_f := length_f l1 + 1\<rparr>)))))"

subsection \<open>Loop counters\<close>

text \<open>
  A counter below a bound of the same type is not the largest \<^verbatim>\<open>int32_t\<close>, so \<^verbatim>\<open>i++\<close> under
  the loop condition \<^verbatim>\<open>i < n\<close> does not wrap. Every loop below terminates for this reason.
\<close>

lemma sint_succ: "i <s n \<Longrightarrow> sint (i + 1) = sint i + 1" for i n :: int32
  using sint_lt [of n] sint_ge [of i]
  by (simp add: word_sless_alt sint_word_ariths signed_take_bit_int_eq_self)

lemma loop_measure: "i <s n \<Longrightarrow> sint i < sint (i + 1) \<and> sint i < sint n"
  for i n :: int32
  by (simp add: sint_succ) (simp add: word_sless_alt)

lemma stList_set_length:
  "stList_set list index item = Inr list' \<Longrightarrow> stList_length list' = stList_length list"
  by (auto simp: stList_set_def stList_length_def bindF_def
      split: if_splits option.splits sum.splits)

subsection \<open>Destruction\<close>

text \<open>\<^verbatim>\<open>list->destructElement(item)\<close>: the call through the function pointer.\<close>

definition call_destructElement :: "stList option \<Rightarrow> ptr \<Rightarrow> fault + event" where
  "call_destructElement list item =
     (case list of
        None \<Rightarrow> Inl NullDereference
      | Some l \<Rightarrow>
          (case destructElement l of
             None \<Rightarrow> Inl NullDereference
           | Some d \<Rightarrow> Inr (Destructor_call d item)))"

text \<open>The loop of \<^verbatim>\<open>destructElements\<close> from counter \<open>i\<close>, with the events so far.\<close>

function destructElements_loop ::
  "stList option \<Rightarrow> int32 \<Rightarrow> event list \<Rightarrow> fault + event list" where
  "destructElements_loop list i trace =
     (if i <s stList_length list
      then bindF (stList_get list i) (\<lambda>v.
           bindF (if v \<noteq> NULL
                  then bindF (stList_get list i) (\<lambda>v'.
                       bindF (call_destructElement list v') (\<lambda>e. Inr (trace @ [e])))
                  else Inr trace) (\<lambda>trace'.
           destructElements_loop list (i + 1) trace'))
      else Inr trace)"
  by pat_completeness auto
termination
  by (relation "measure (\<lambda>(list, i, trace). nat (sint (stList_length list) - sint i))")
    (auto dest: loop_measure)

definition destructElements :: "stList option \<Rightarrow> fault + event list" where
  "destructElements list = destructElements_loop list 0 []"

definition stList_destruct :: "stList option \<Rightarrow> fault + event list" where
  "stList_destruct list =
     (case list of
        None \<Rightarrow> Inr []
      | Some l \<Rightarrow>
          bindF (if destructElement l \<noteq> None then destructElements list else Inr []) (\<lambda>calls.
          Inr (calls @ (if list_f l \<noteq> None then [Free_buffer] else []) @ [Free_struct])))"

subsection \<open>Append all, peek, pop, remove\<close>

function stList_appendAll_loop ::
  "stList option \<Rightarrow> stList option \<Rightarrow> int32 \<Rightarrow> fault + stList option" where
  "stList_appendAll_loop stListToAddTo stListToAdd i =
     (if i <s stList_length stListToAdd
      then bindF (stList_get stListToAdd i) (\<lambda>v.
           bindF (stList_append stListToAddTo v) (\<lambda>to'.
           stList_appendAll_loop to' stListToAdd (i + 1)))
      else Inr stListToAddTo)"
  by pat_completeness auto
termination
  by (relation "measure (\<lambda>(to, add, i). nat (sint (stList_length add) - sint i))")
    (auto dest: loop_measure)

text \<open>
  \<^verbatim>\<open>assert(stListToAdd != stListToAddTo)\<close> compares the two pointers. Two structs passed by
  value are two objects, so the assertion fails in the model only when both pointers are
  \<^verbatim>\<open>NULL\<close>; appending a list to itself is outside the model. The result is the state of
  \<^verbatim>\<open>stListToAddTo\<close>; \<^verbatim>\<open>stListToAdd\<close> is only read.
\<close>

definition stList_appendAll :: "stList option \<Rightarrow> stList option \<Rightarrow> fault + stList option" where
  "stList_appendAll stListToAddTo stListToAdd =
     (if stListToAdd = None \<and> stListToAddTo = None then Inl AssertionFailure
      else stList_appendAll_loop stListToAddTo stListToAdd 0)"

definition stList_peek :: "stList option \<Rightarrow> fault + ptr" where
  "stList_peek list =
     (if \<not> 0 <s stList_length list then Inl AssertionFailure
      else stList_get list (stList_length list - 1))"

text \<open>The shifting loop of \<^verbatim>\<open>stList_remove\<close> from counter \<open>i\<close>.\<close>

function stList_remove_loop :: "stList option \<Rightarrow> int32 \<Rightarrow> fault + stList option" where
  "stList_remove_loop list i =
     (if i <s stList_length list
      then bindF (stList_get list i) (\<lambda>v.
           bindF (stList_set list (i - 1) v) (\<lambda>list'.
           stList_remove_loop list' (i + 1)))
      else Inr list)"
  by pat_completeness auto
termination
proof (relation "measure (\<lambda>(list, i). nat (sint (stList_length list) - sint i))", goal_cases)
  case 1
  show ?case by simp
next
  case (2 list i v list')
  then show ?case
    using loop_measure [of i "stList_length list"] stList_set_length [of list "i - 1" v list']
    by simp
qed

text \<open>The result is the removed element and the state of the list.\<close>

definition stList_remove :: "stList option \<Rightarrow> int32 \<Rightarrow> fault + (ptr \<times> stList option)" where
  "stList_remove list index =
     (if \<not> 0 \<le>s index then Inl AssertionFailure
      else if \<not> index <s stList_length list then Inl AssertionFailure
      else bindF (stList_get list index) (\<lambda>o'.
           bindF (stList_remove_loop list (index + 1)) (\<lambda>list'.
           case list' of
             None \<Rightarrow> Inl NullDereference
           | Some l \<Rightarrow> Inr (o', Some (l\<lparr>length_f := length_f l - 1\<rparr>)))))"

definition stList_pop :: "stList option \<Rightarrow> fault + (ptr \<times> stList option)" where
  "stList_pop list = stList_remove list (stList_length list - 1)"

function stList_removeItem_loop ::
  "stList option \<Rightarrow> ptr \<Rightarrow> int32 \<Rightarrow> fault + stList option" where
  "stList_removeItem_loop list item i =
     (if i <s stList_length list
      then bindF (stList_get list i) (\<lambda>v.
           if v = item
           then bindF (stList_remove list i) (\<lambda>(removed, list'). Inr list')
           else stList_removeItem_loop list item (i + 1))
      else Inr list)"
  by pat_completeness auto
termination
  by (relation "measure (\<lambda>(list, item, i). nat (sint (stList_length list) - sint i))")
    (auto dest: loop_measure)

definition stList_removeItem :: "stList option \<Rightarrow> ptr \<Rightarrow> fault + stList option" where
  "stList_removeItem list item = stList_removeItem_loop list item 0"

definition stList_removeFirst :: "stList option \<Rightarrow> fault + (ptr \<times> stList option)" where
  "stList_removeFirst list = stList_remove list 0"

subsection \<open>Contains, copy, reverse\<close>

function stList_contains_loop :: "stList option \<Rightarrow> ptr \<Rightarrow> int32 \<Rightarrow> fault + int32" where
  "stList_contains_loop list item i =
     (if i <s stList_length list
      then bindF (stList_get list i) (\<lambda>v.
           if v = item then Inr 1 else stList_contains_loop list item (i + 1))
      else Inr 0)"
  by pat_completeness auto
termination
  by (relation "measure (\<lambda>(list, item, i). nat (sint (stList_length list) - sint i))")
    (auto dest: loop_measure)

definition stList_contains :: "stList option \<Rightarrow> ptr \<Rightarrow> fault + int32" where
  "stList_contains list item = stList_contains_loop list item 0"

text \<open>The result is the new list; the copied list is only read.\<close>

definition stList_copy :: "stList option \<Rightarrow> nat option \<Rightarrow> fault + stList option" where
  "stList_copy list destructItem =
     bindF (stList_construct3 0 destructItem) (\<lambda>list2.
     stList_appendAll list2 list)"

text \<open>
  The loop of \<^verbatim>\<open>stList_reverse\<close> from counter \<open>i\<close>. \<^verbatim>\<open>j/2\<close> is C's division, which truncates
  towards zero: \<open>sdiv\<close> on the signed value.
\<close>

function stList_reverse_loop ::
  "stList option \<Rightarrow> int32 \<Rightarrow> int32 \<Rightarrow> fault + stList option" where
  "stList_reverse_loop list i j =
     (if i <s word_of_int (sint j sdiv 2)
      then bindF (stList_get list (j - 1 - i)) (\<lambda>o'.
           bindF (stList_get list i) (\<lambda>v.
           bindF (stList_set list (j - 1 - i) v) (\<lambda>list1.
           bindF (stList_set list1 i o') (\<lambda>list2.
           stList_reverse_loop list2 (i + 1) j))))
      else Inr list)"
  by pat_completeness auto
termination
  by (relation "measure (\<lambda>(list, i, j). nat (sint (word_of_int (sint j sdiv 2) :: int32) - sint i))")
    (auto dest: loop_measure)

definition stList_reverse :: "stList option \<Rightarrow> fault + stList option" where
  "stList_reverse list = stList_reverse_loop list 0 (stList_length list)"

subsection \<open>Iterators\<close>

text \<open>
  The iterator's \<^verbatim>\<open>list\<close> field is a pointer; the model's field holds the state of the list
  it points to at the time of the call. A traversal call returns the element and the state
  of the iterator.
\<close>

definition stList_getIterator :: "stList option \<Rightarrow> stListIterator" where
  "stList_getIterator list = \<lparr>it_list = list, it_index = 0\<rparr>"

definition stList_getNext :: "stListIterator \<Rightarrow> fault + (ptr \<times> stListIterator)" where
  "stList_getNext iterator =
     (if it_list iterator = None \<or> stList_length (it_list iterator) \<le>s it_index iterator
      then Inr (NULL, iterator)
      else bindF (stList_get (it_list iterator) (it_index iterator)) (\<lambda>v.
           Inr (v, iterator\<lparr>it_index := it_index iterator + 1\<rparr>)))"

definition stList_getPrevious :: "stListIterator \<Rightarrow> fault + (ptr \<times> stListIterator)" where
  "stList_getPrevious iterator =
     (if it_list iterator = None \<or> it_index iterator = 0
      then Inr (NULL, iterator)
      else bindF (stList_get (it_list iterator) (it_index iterator - 1)) (\<lambda>v.
           Inr (v, iterator\<lparr>it_index := it_index iterator - 1\<rparr>)))"

definition stList_copyIterator :: "stListIterator \<Rightarrow> stListIterator" where
  "stList_copyIterator iterator = (stList_getIterator (it_list iterator))\<lparr>it_index := it_index iterator\<rparr>"

subsection \<open>Sort, shuffle, destructor\<close>

text \<open>
  \<^verbatim>\<open>qsort\<close> is the C library's: a parameter, given the comparison and the slots it sorts.
  \<^verbatim>\<open>st_list_sortP\<close> hands the contents of two slots to \<^verbatim>\<open>cmpFn\<close>, which the static
  \<^verbatim>\<open>st_list_sort_cmpFn\<close> holds during the call. \<^verbatim>\<open>qsort\<close> takes the count as a \<^verbatim>\<open>size_t\<close>.
\<close>

definition stList_sort ::
  "((ptr \<Rightarrow> ptr \<Rightarrow> int32) \<Rightarrow> cell list \<Rightarrow> cell list) \<Rightarrow> stList option \<Rightarrow>
   (ptr \<Rightarrow> ptr \<Rightarrow> int32) \<Rightarrow> fault + stList option" where
  "stList_sort qsort list cmpFn =
     (case list of
        None \<Rightarrow> Inl NullDereference
      | Some l \<Rightarrow>
          (case list_f l of
             None \<Rightarrow> if stList_length list = 0 then Inr list else Inl NullDereference
           | Some b \<Rightarrow>
               if 0 \<le>s stList_length list \<and> nat (sint (stList_length list)) \<le> length b
               then Inr (Some (l\<lparr>list_f :=
                      Some (qsort cmpFn (take (nat (sint (stList_length list))) b)
                            @ drop (nat (sint (stList_length list))) b)\<rparr>))
               else Inl OutOfBounds))"

text \<open>
  \<^verbatim>\<open>st_randomInt\<close> is defined in another file of the repository and draws from a random
  source: a parameter, \<open>st_randomInt k min max\<close> being what the \<open>k\<close>-th call of the loop
  returns. The loop makes one call per round, so round \<open>i\<close> makes call \<open>i\<close>.
\<close>

function stList_shuffle_loop ::
  "(nat \<Rightarrow> int32 \<Rightarrow> int32 \<Rightarrow> int32) \<Rightarrow> stList option \<Rightarrow> int32 \<Rightarrow> fault + stList option" where
  "stList_shuffle_loop st_randomInt list i =
     (if i <s stList_length list
      then (let j = st_randomInt (nat (sint i)) 0 (stList_length list) in
           bindF (stList_get list i) (\<lambda>o'.
           bindF (stList_get list j) (\<lambda>v.
           bindF (stList_set list i v) (\<lambda>list1.
           bindF (stList_set list1 j o') (\<lambda>list2.
           stList_shuffle_loop st_randomInt list2 (i + 1))))))
      else Inr list)"
  by pat_completeness auto
termination
proof (relation "measure (\<lambda>(r, list, i). nat (sint (stList_length list) - sint i))", goal_cases)
  case 1
  show ?case by simp
next
  case (2 r list i j o' v list1 list2)
  then show ?case
    using loop_measure [of i "stList_length list"] stList_set_length [of list i v list1]
      stList_set_length [of list1 j o' list2]
    by simp
qed

definition stList_shuffle ::
  "(nat \<Rightarrow> int32 \<Rightarrow> int32 \<Rightarrow> int32) \<Rightarrow> stList option \<Rightarrow> fault + stList option" where
  "stList_shuffle st_randomInt list = stList_shuffle_loop st_randomInt list 0"

definition stList_setDestructor :: "stList option \<Rightarrow> nat option \<Rightarrow> fault + stList option" where
  "stList_setDestructor list destructElement' =
     (case list of
        None \<Rightarrow> Inl NullDereference
      | Some l \<Rightarrow> Inr (Some (l\<lparr>destructElement := destructElement'\<rparr>)))"

subsection \<open>Filters and join\<close>

text \<open>The loops build \<^verbatim>\<open>list2\<close>; the filtered list is only read.\<close>

function stList_filter_loop ::
  "stList option \<Rightarrow> (ptr \<Rightarrow> bool) \<Rightarrow> stList option \<Rightarrow> int32 \<Rightarrow> fault + stList option" where
  "stList_filter_loop list fn list2 i =
     (if i <s stList_length list
      then bindF (stList_get list i) (\<lambda>o'.
           bindF (if fn o' then stList_append list2 o' else Inr list2) (\<lambda>list2'.
           stList_filter_loop list fn list2' (i + 1)))
      else Inr list2)"
  by pat_completeness auto
termination
  by (relation "measure (\<lambda>(list, fn, list2, i). nat (sint (stList_length list) - sint i))")
    (auto dest: loop_measure)

definition stList_filter :: "stList option \<Rightarrow> (ptr \<Rightarrow> bool) \<Rightarrow> fault + stList option" where
  "stList_filter list fn = bindF stList_construct (\<lambda>list2. stList_filter_loop list fn list2 0)"

text \<open>
  The sorted set is an external collaborator: \<open>stSortedSet_search\<close> stands for
  \<^verbatim>\<open>stSortedSet_search(set, _)\<close> on the given set, which returns the element found or \<^verbatim>\<open>NULL\<close>.
\<close>

function filterP_loop ::
  "stList option \<Rightarrow> (ptr \<Rightarrow> ptr) \<Rightarrow> bool \<Rightarrow> stList option \<Rightarrow> int32 \<Rightarrow> fault + stList option" where
  "filterP_loop list stSortedSet_search include' list2 i =
     (if i <s stList_length list
      then bindF (stList_get list i) (\<lambda>o'.
           bindF (if (stSortedSet_search o' \<noteq> NULL \<and> include')
                     \<or> (stSortedSet_search o' = NULL \<and> \<not> include')
                  then stList_append list2 o' else Inr list2) (\<lambda>list2'.
           filterP_loop list stSortedSet_search include' list2' (i + 1)))
      else Inr list2)"
  by pat_completeness auto
termination
  by (relation "measure (\<lambda>(list, s, inc, list2, i). nat (sint (stList_length list) - sint i))")
    (auto dest: loop_measure)

definition filterP :: "stList option \<Rightarrow> (ptr \<Rightarrow> ptr) \<Rightarrow> bool \<Rightarrow> fault + stList option" where
  "filterP list stSortedSet_search include' =
     bindF stList_construct (\<lambda>list2. filterP_loop list stSortedSet_search include' list2 0)"

definition stList_filterToExclude :: "stList option \<Rightarrow> (ptr \<Rightarrow> ptr) \<Rightarrow> fault + stList option" where
  "stList_filterToExclude list stSortedSet_search = filterP list stSortedSet_search False"

definition stList_filterToInclude :: "stList option \<Rightarrow> (ptr \<Rightarrow> ptr) \<Rightarrow> fault + stList option" where
  "stList_filterToInclude list stSortedSet_search = filterP list stSortedSet_search True"

text \<open>
  The elements of \<^verbatim>\<open>listOfLists\<close> are pointers to lists: \<open>heap\<close> gives the struct at an
  address, and the null pointer points to none.
\<close>

definition deref :: "(nat \<Rightarrow> stList) \<Rightarrow> ptr \<Rightarrow> stList option" where
  "deref heap p = (case p of NULL \<Rightarrow> None | Addr a \<Rightarrow> Some (heap a))"

function stList_join_loop ::
  "(nat \<Rightarrow> stList) \<Rightarrow> stList option \<Rightarrow> stList option \<Rightarrow> int32 \<Rightarrow> fault + stList option" where
  "stList_join_loop heap listOfLists joinedList i =
     (if i <s stList_length listOfLists
      then bindF (stList_get listOfLists i) (\<lambda>p.
           bindF (stList_appendAll joinedList (deref heap p)) (\<lambda>joinedList'.
           stList_join_loop heap listOfLists joinedList' (i + 1)))
      else Inr joinedList)"
  by pat_completeness auto
termination
  by (relation "measure (\<lambda>(heap, lists, joined, i). nat (sint (stList_length lists) - sint i))")
    (auto dest: loop_measure)

definition stList_join :: "(nat \<Rightarrow> stList) \<Rightarrow> stList option \<Rightarrow> fault + stList option" where
  "stList_join heap listOfLists =
     bindF stList_construct (\<lambda>joinedList. stList_join_loop heap listOfLists joinedList 0)"

section \<open>Vocabulary of the properties\<close>

text \<open>
  The definitions the theorems are stated with: the elements of a list and its
  well-formedness, runs of several calls, and the lists, iterators and parameters at which
  the theorems are instantiated.
\<close>

text \<open>
  The first \<open>length\<close> slots of the array are the list's elements. A well-formed list obeys
  \<open>0 \<le> length \<le> maxLength\<close>, its array has \<open>maxLength\<close> slots, and none of its elements is
  indeterminate. \<open>elems\<close> reads the elements; on a well-formed list no slot it reads is
  indeterminate.
\<close>

definition cell_val :: "cell \<Rightarrow> ptr" where
  "cell_val c = (case c of Indeterminate \<Rightarrow> NULL | Cell v \<Rightarrow> v)"

definition cells :: "stList \<Rightarrow> cell list" where
  "cells l = (case list_f l of None \<Rightarrow> [] | Some b \<Rightarrow> take (nat (sint (length_f l))) b)"

definition elems :: "stList \<Rightarrow> ptr list" where
  "elems l = map cell_val (cells l)"

definition valid_list :: "stList \<Rightarrow> bool" where
  "valid_list l \<longleftrightarrow>
     0 \<le>s length_f l \<and> length_f l \<le>s maxLength l \<and>
     (case list_f l of None \<Rightarrow> False | Some b \<Rightarrow> length b = nat (sint (maxLength l))) \<and>
     Indeterminate \<notin> set (cells l)"

text \<open>
  \<open>rep xs tail c d\<close> is the list with the elements \<open>xs\<close>, the unused slots \<open>tail\<close> after
  them, capacity \<open>c\<close> and destructor \<open>d\<close>; it is well-formed when the slots \<open>fit\<close> the
  capacity. Every well-formed list is of this form.
\<close>

definition rep :: "ptr list \<Rightarrow> cell list \<Rightarrow> int32 \<Rightarrow> nat option \<Rightarrow> stList" where
  "rep xs tail c d =
     \<lparr>list_f = Some (map Cell xs @ tail), length_f = of_nat (length xs), maxLength = c,
      destructElement = d\<rparr>"

definition fits :: "ptr list \<Rightarrow> cell list \<Rightarrow> int32 \<Rightarrow> bool" where
  "fits xs tail c \<longleftrightarrow> 0 \<le>s c \<and> length xs + length tail = nat (sint c)"

text \<open>
  What \<^verbatim>\<open>stList_construct3(2, f)\<close> returns, \<open>f\<close> at address 7: two null elements.
\<close>

definition two_nulls :: stList where
  "two_nulls = \<lparr>list_f = Some [Cell NULL, Cell NULL], length_f = 2, maxLength = 2,
                destructElement = Some 7\<rparr>"

text \<open>A list of two elements, the second null, with the destructor at address 7.\<close>

definition one_elem :: stList where
  "one_elem = \<lparr>list_f = Some [Cell (Addr 1), Cell NULL],
     length_f = 2, maxLength = 2, destructElement = Some 7\<rparr>"

text \<open>The number of slots of the array.\<close>

definition storage_slots :: "stList \<Rightarrow> nat" where
  "storage_slots l = (case list_f l of None \<Rightarrow> 0 | Some b \<Rightarrow> length b)"

text \<open>A full list of one element, and a list of one element with a free slot.\<close>

definition full_one :: stList where
  "full_one = \<lparr>list_f = Some [Cell (Addr 1)], length_f = 1, maxLength = 1,
               destructElement = None\<rparr>"

definition room_one :: stList where
  "room_one = \<lparr>list_f = Some [Cell (Addr 1), Indeterminate], length_f = 1, maxLength = 2,
               destructElement = None\<rparr>"

text \<open>What \<^verbatim>\<open>stList_construct2(1073741822)\<close> returns: a full list of 1073741822 null elements.\<close>

definition full_list :: stList where
  "full_list = \<lparr>list_f = Some (replicate 1073741822 (Cell NULL)), length_f = 1073741822,
                maxLength = 1073741822, destructElement = None\<rparr>"

text \<open>A well-formed list of three elements.\<close>

definition abc_list :: stList where
  "abc_list = \<lparr>list_f = Some [Cell (Addr 10), Cell (Addr 20), Cell (Addr 30)],
               length_f = 3, maxLength = 3, destructElement = None\<rparr>"

text \<open>The list \<^verbatim>\<open>stList_construct()\<close> returns: no elements, no slots.\<close>

definition empty_list :: stList where
  "empty_list = \<lparr>list_f = Some [], length_f = 0, maxLength = 0, destructElement = None\<rparr>"

text \<open>\<open>k\<close> calls of \<^verbatim>\<open>stList_getNext\<close> in a row; the elements returned are dropped.\<close>

fun getNext_times :: "nat \<Rightarrow> stListIterator \<Rightarrow> fault + stListIterator" where
  "getNext_times 0 iterator = Inr iterator"
| "getNext_times (Suc k) iterator =
     bindF (stList_getNext iterator) (\<lambda>(v, iterator'). getNext_times k iterator')"

text \<open>An iterator of the three-element list at index 1, one at its end, one of no list.\<close>

definition abc_at_1 :: stListIterator where
  "abc_at_1 = \<lparr>it_list = Some abc_list, it_index = 1\<rparr>"

definition abc_at_end :: stListIterator where
  "abc_at_end = \<lparr>it_list = Some abc_list, it_index = 3\<rparr>"

definition no_list_iterator :: stListIterator where
  "no_list_iterator = \<lparr>it_list = None, it_index = 0\<rparr>"

text \<open>A list whose second element is null, and an iterator at that element.\<close>

definition null_inside :: stList where
  "null_inside = \<lparr>list_f = Some [Cell (Addr 10), Cell NULL, Cell (Addr 30)],
                  length_f = 3, maxLength = 3, destructElement = None\<rparr>"

definition null_inside_at_1 :: stListIterator where
  "null_inside_at_1 = \<lparr>it_list = Some null_inside, it_index = 1\<rparr>"

text \<open>\<^verbatim>\<open>stList_append\<close> called once for each value of a sequence, in order.\<close>

fun append_seq :: "stList option \<Rightarrow> ptr list \<Rightarrow> fault + stList option" where
  "append_seq list [] = Inr list"
| "append_seq list (v # vs) = bindF (stList_append list v) (\<lambda>list'. append_seq list' vs)"

text \<open>
  A list that grows from \<^verbatim>\<open>stList_construct()\<close> has one of the capacities 0, 5, 15, 35, ...:
  \<open>maxLength + 5 = 5 * 2 ^ k\<close>. The largest that an \<^verbatim>\<open>int32_t\<close> holds is
  \<open>5 * 2 ^ 28 - 5 = 1342177275\<close>.
\<close>

definition grown :: "int32 \<Rightarrow> bool" where
  "grown c \<longleftrightarrow> (\<exists>k. k \<le> 28 \<and> sint c + 5 = 5 * 2 ^ k)"

text \<open>\<^verbatim>\<open>stList_construct()\<close> followed by one \<^verbatim>\<open>stList_append\<close> for each value, in order.\<close>

definition construct_and_append :: "ptr list \<Rightarrow> fault + stList option" where
  "construct_and_append vs = bindF stList_construct (\<lambda>list. append_seq list vs)"

text \<open>A sorted set that holds the addresses 10 and 30, and one that holds nothing.\<close>

definition search_10_30 :: "ptr \<Rightarrow> ptr" where
  "search_10_30 v = (if v = Addr 10 \<or> v = Addr 30 then v else NULL)"

definition search_nothing :: "ptr \<Rightarrow> ptr" where
  "search_nothing v = NULL"

text \<open>What \<^verbatim>\<open>stList_construct2(1342177276)\<close> returns: 1342177276 null elements.\<close>

definition nulls_list :: stList where
  "nulls_list = \<lparr>list_f = Some (replicate 1342177276 (Cell NULL)), length_f = 1342177276,
                 maxLength = 1342177276, destructElement = None\<rparr>"

text \<open>\<open>0 \<le> length \<le> maxLength\<close>, as signed numbers.\<close>

definition length_invariant :: "stList \<Rightarrow> bool" where
  "length_invariant l \<longleftrightarrow> 0 \<le>s length_f l \<and> length_f l \<le>s maxLength l"

text \<open>The invariant behind a list pointer; the \<^verbatim>\<open>NULL\<close> pointer points to no list.\<close>

definition inv_ptr :: "stList option \<Rightarrow> bool" where
  "inv_ptr list = (case list of None \<Rightarrow> True | Some l \<Rightarrow> length_invariant l)"

definition sizes :: "stList option \<Rightarrow> (int32 \<times> int32) option" where
  "sizes list = map_option (\<lambda>l. (length_f l, maxLength l)) list"

text \<open>
  Parameters for running the operations: a random source that always returns its lower
  bound, a \<^verbatim>\<open>qsort\<close> that leaves the slots as they are (right for a comparison under which all
  elements are equal), that comparison, a predicate, and a heap and a list of lists for the
  join: its first element points to the three-element list, its second is null.
\<close>

definition pick_first :: "nat \<Rightarrow> int32 \<Rightarrow> int32 \<Rightarrow> int32" where
  "pick_first k lo hi = lo"

definition keep_order :: "(ptr \<Rightarrow> ptr \<Rightarrow> int32) \<Rightarrow> cell list \<Rightarrow> cell list" where
  "keep_order cmpFn cs = cs"

definition no_order :: "ptr \<Rightarrow> ptr \<Rightarrow> int32" where
  "no_order a b = 0"

definition not_null :: "ptr \<Rightarrow> bool" where
  "not_null v \<longleftrightarrow> v \<noteq> NULL"

definition heap_of_abc :: "nat \<Rightarrow> stList" where
  "heap_of_abc a = abc_list"

definition list_of_lists :: stList where
  "list_of_lists = \<lparr>list_f = Some [Cell (Addr 1), Cell NULL], length_f = 2, maxLength = 2,
                    destructElement = None\<rparr>"

text \<open>The elements of the list an element of a list of lists points to; none for \<^verbatim>\<open>NULL\<close>.\<close>

definition pointee_elems :: "(nat \<Rightarrow> stList) \<Rightarrow> ptr \<Rightarrow> ptr list" where
  "pointee_elems heap p = (case deref heap p of None \<Rightarrow> [] | Some l \<Rightarrow> elems l)"

text \<open>
  A heap with the three-element list at address 3 and the one-element list elsewhere, and
  the list of the two lists at the addresses 3 and 4.
\<close>

definition heap_ab :: "nat \<Rightarrow> stList" where
  "heap_ab a = (if a = 3 then abc_list else full_one)"

definition list_ab :: stList where
  "list_ab = \<lparr>list_f = Some [Cell (Addr 3), Cell (Addr 4)], length_f = 2, maxLength = 2,
              destructElement = None\<rparr>"

section \<open>Well-formed lists\<close>

lemma sint_of_nat32: "k < 2 ^ 31 \<Longrightarrow> sint (of_nat k :: int32) = int k"
proof -
  assume k: "k < 2 ^ 31"
  have "sint (of_nat k :: int32) = sint (word_of_int (int k) :: int32)"
    by simp
  also have "\<dots> = signed_take_bit 31 (int k)"
    by (simp only: sint_sbintrunc') simp
  also have "\<dots> = int k"
    using k by (simp add: signed_take_bit_int_eq_self)
  finally show ?thesis .
qed

lemma of_nat_sint32: "0 \<le> sint (i :: int32) \<Longrightarrow> of_nat (nat (sint i)) = i"
  by simp

lemma cell_val_Cell [simp]: "cell_val (Cell v) = v"
  by (simp add: cell_val_def)

lemma Cell_cell_val: "Indeterminate \<notin> set ys \<Longrightarrow> map Cell (map cell_val ys) = ys"
  by (induction ys) (auto simp: cell_val_def split: cell.splits)

lemma fits_bound: "fits xs t c \<Longrightarrow> length xs < 2 ^ 31"
  using sint_lt [of c] by (auto simp: fits_def word_sle_eq)

lemma map_cell_val_Cell [simp]: "map cell_val (map Cell xs) = xs"
  by (induction xs) simp_all

lemma rep_simps [simp]:
  "list_f (rep xs t c d) = Some (map Cell xs @ t)"
  "length_f (rep xs t c d) = of_nat (length xs)"
  "maxLength (rep xs t c d) = c"
  "destructElement (rep xs t c d) = d"
  by (simp_all add: rep_def)

lemma elems_rep: "fits xs t c \<Longrightarrow> elems (rep xs t c d) = xs"
  by (frule fits_bound) (simp add: elems_def cells_def sint_of_nat32 del: map_map)

lemma valid_rep: "fits xs t c \<Longrightarrow> valid_list (rep xs t c d)"
  apply (frule fits_bound)
  apply (auto simp: valid_list_def cells_def sint_of_nat32 word_sle_eq fits_def)
  done

lemma valid_list_rep:
  assumes "valid_list l"
  obtains t where "l = rep (elems l) t (maxLength l) (destructElement l)"
    and "fits (elems l) t (maxLength l)"
proof -
  from assms obtain b where b: "list_f l = Some b" "length b = nat (sint (maxLength l))"
    by (auto simp: valid_list_def split: option.splits)
  let ?n = "nat (sint (length_f l))"
  from assms have le: "0 \<le> sint (length_f l)" "sint (length_f l) \<le> sint (maxLength l)"
    by (auto simp: valid_list_def word_sle_eq)
  from assms b have ni: "Indeterminate \<notin> set (take ?n b)"
    by (simp add: valid_list_def cells_def)
  have c: "map Cell (elems l) = take ?n b"
    using ni b by (simp add: Cell_cell_val elems_def cells_def del: map_map)
  have len: "length (elems l) = ?n"
    using b le by (simp add: elems_def cells_def)
  have "l = rep (elems l) (drop ?n b) (maxLength l) (destructElement l)"
    using b le by (simp add: rep_def c len of_nat_sint32)
  moreover have "fits (elems l) (drop ?n b) (maxLength l)"
    using b le by (simp add: fits_def len word_sle_eq)
  ultimately show ?thesis using that by blast
qed

lemma sless_of_nat32:
  "k < 2 ^ 31 \<Longrightarrow> n < 2 ^ 31 \<Longrightarrow> ((of_nat k :: int32) <s of_nat n) = (k < n)"
  by (simp add: word_sless_alt sint_of_nat32)

lemma sle_of_nat32:
  "k < 2 ^ 31 \<Longrightarrow> n < 2 ^ 31 \<Longrightarrow> ((of_nat k :: int32) \<le>s of_nat n) = (k \<le> n)"
  by (simp add: word_sle_eq sint_of_nat32)

lemma zero_sle_of_nat32: "k < 2 ^ 31 \<Longrightarrow> (0 :: int32) \<le>s of_nat k"
  by (simp add: word_sle_eq sint_of_nat32)

lemma fits_cap: "fits xs t c \<Longrightarrow> c = of_nat (length xs + length t) \<and> length xs + length t < 2 ^ 31"
  using sint_lt [of c] by (auto simp: fits_def word_sle_eq)

lemma stList_length_rep [simp]: "stList_length (Some (rep xs t c d)) = of_nat (length xs)"
  by (simp add: stList_length_def)

lemma get_rep:
  assumes "fits xs t c" "k < length xs"
  shows "stList_get (Some (rep xs t c d)) (of_nat k) = Inr (xs ! k)"
proof -
  from assms have "length xs < 2 ^ 31" "k < 2 ^ 31"
    using fits_bound [of xs t c] by simp_all
  with assms show ?thesis
    by (simp add: stList_get_def stList_length_def read_cell_def zero_sle_of_nat32
        sless_of_nat32 sint_of_nat32 nth_append rep_def)
qed

lemma set_rep:
  assumes "fits xs t c" "k < length xs"
  shows "stList_set (Some (rep xs t c d)) (of_nat k) v = Inr (Some (rep (xs[k := v]) t c d))"
proof -
  from assms have "length xs < 2 ^ 31" "k < 2 ^ 31"
    using fits_bound [of xs t c] by simp_all
  with assms show ?thesis
    by (simp add: stList_set_def stList_length_def write_cell_def zero_sle_of_nat32
        sless_of_nat32 sint_of_nat32 list_update_append map_update rep_def)
qed

lemma fits_update [simp]: "fits (xs[k := v]) t c = fits xs t c"
  by (simp add: fits_def)

lemma get_rep_fault:
  assumes "fits xs t c" "\<not> (0 \<le> sint i \<and> sint i < int (length xs))"
  shows "stList_get (Some (rep xs t c d)) i = Inl AssertionFailure"
proof -
  from assms have "length xs < 2 ^ 31"
    using fits_bound [of xs t c] by simp
  with assms show ?thesis
    by (auto simp: stList_get_def stList_length_def rep_def word_sle_eq word_sless_alt
        sint_of_nat32)
qed

lemma sint_grow:
  "0 \<le> sint (m :: int32) \<Longrightarrow> 2 * sint m + 5 < 2 ^ 31 \<Longrightarrow> sint (m * 2 + 5) = 2 * sint m + 5"
  by (simp add: sint_word_ariths signed_take_bit_int_eq_self)

lemma sint_grow_overflow:
  assumes "0 \<le> sint (m :: int32)" "2 ^ 31 \<le> 2 * sint m + 5"
  shows "sint (m * 2 + 5) = 2 * sint m + 5 - 2 ^ 32"
proof -
  let ?k = "2 * sint m + 5"
  have m: "sint m < 2 ^ 31" using sint_lt [of m] by simp
  have "m * 2 + 5 = (word_of_int ?k :: int32)"
    by simp
  then have "sint (m * 2 + 5) = signed_take_bit 31 ?k"
    by (simp only: sint_sbintrunc') simp
  also have "\<dots> = (?k + 2 ^ 31) mod 2 ^ 32 - 2 ^ 31"
    by (simp add: signed_take_bit_eq_take_bit_shift take_bit_eq_mod)
  also have "(?k + 2 ^ 31) mod 2 ^ 32 = (?k + 2 ^ 31 - 2 ^ 32) mod 2 ^ 32"
    by (simp only: minus_mod_self2)
  also have "\<dots> = ?k + 2 ^ 31 - 2 ^ 32"
    using assms m by (intro mod_pos_pos_trivial) simp_all
  finally show ?thesis by simp
qed

lemma append_rep_room:
  assumes "fits xs (c0 # t) c"
  shows "stList_append (Some (rep xs (c0 # t) c d)) v = Inr (Some (rep (xs @ [v]) t c d))"
proof -
  from assms have b: "length xs + Suc (length t) < 2 ^ 31" "c = of_nat (length xs + Suc (length t))"
    using fits_cap [of xs "c0 # t" c] by simp_all
  then have "\<not> c \<le>s of_nat (length xs)"
    by (simp add: word_sle_eq sint_of_nat32 del: of_nat_add of_nat_Suc)
  with b(1) show ?thesis
    by (simp add: stList_append_def stList_length_def write_cell_def zero_sle_of_nat32
        sint_of_nat32 rep_def list_update_append)
qed

lemma fits_full: "fits xs [] c \<Longrightarrow> sint c = int (length xs) \<and> c = of_nat (length xs)"
  using fits_cap [of xs "[]" c] by (simp add: sint_of_nat32)

lemma memcpy_cells_all:
  assumes "sint c = int (length s)" "length s \<le> length dst"
  shows "memcpy_cells dst (Some s) c = Inr (s @ drop (length s) dst)"
proof (cases "c = 0")
  case True
  with assms(1) have "s = []" by simp
  with True show ?thesis by (simp add: memcpy_cells_def)
next
  case False
  moreover have "0 \<le>s c" "nat (sint c) = length s"
    using assms(1) by (simp_all add: word_sle_eq)
  ultimately show ?thesis
    using assms(2) by (simp add: memcpy_cells_def)
qed

lemma st_list_appendP_grow:
  assumes "fits xs [] c" "2 * sint c + 5 < 2 ^ 31"
  shows "st_list_appendP (Some (map Cell xs)) c (c * 2 + 5) =
         Inr (Some (map Cell xs @ replicate (length xs + 5) Indeterminate), c * 2 + 5)"
proof -
  from assms have c: "sint c = int (length xs)"
    using fits_full by blast
  have g: "sint (c * 2 + 5) = 2 * int (length xs) + 5"
    using sint_grow [of c] assms(2) c by simp
  then have nn: "nat (sint (c * 2 + 5)) = length xs + (length xs + 5)"
    by simp
  have le: "c \<le>s c * 2 + 5" "0 \<le>s c * 2 + 5"
    using g c by (simp_all add: word_sle_eq)
  have m: "st_malloc (c * 2 + 5) = Inr (replicate (length xs + (length xs + 5)) Indeterminate)"
    using le(2) by (simp add: st_malloc_def nn)
  have "memcpy_cells (replicate (length xs + (length xs + 5)) Indeterminate)
          (Some (map Cell xs)) c =
        Inr (map Cell xs @ replicate (length xs + 5) Indeterminate)"
    using memcpy_cells_all [of c "map Cell xs"
        "replicate (length xs + (length xs + 5)) Indeterminate"] c
    by simp
  with m le(1) show ?thesis
    by (simp add: st_list_appendP_def)
qed

lemma append_rep_full:
  assumes "fits xs [] c" "2 * sint c + 5 < 2 ^ 31"
  shows "stList_append (Some (rep xs [] c d)) v =
         Inr (Some (rep (xs @ [v]) (replicate (length xs + 4) Indeterminate) (c * 2 + 5) d))"
proof -
  from assms have c: "c = of_nat (length xs)"
    using fits_full by blast
  have n: "length xs < 2 ^ 31" using assms(1) by (rule fits_bound)
  have le: "c \<le>s of_nat (length xs)"
    using c by simp
  have r: "replicate (length xs + 5) Indeterminate =
           Indeterminate # replicate (length xs + 4) Indeterminate"
    by (simp add: replicate_add numeral_eq_Suc)
  show ?thesis
    using le n st_list_appendP_grow [OF assms]
    by (simp add: stList_append_def stList_length_def MINIMUM_ARRAY_EXPAND_SIZE_def rep_def
        write_cell_def zero_sle_of_nat32 sint_of_nat32 list_update_append r)
qed

lemma append_rep_overflow:
  assumes "fits xs [] c" "2 ^ 31 \<le> 2 * sint c + 5"
  shows "stList_append (Some (rep xs [] c d)) v = Inl AssertionFailure"
proof -
  from assms have c: "sint c = int (length xs)" "c = of_nat (length xs)"
    using fits_full by blast+
  have n: "length xs < 2 ^ 31" using assms(1) by (rule fits_bound)
  have g: "sint (c * 2 + 5) = 2 * int (length xs) + 5 - 2 ^ 32"
    using sint_grow_overflow [of c] assms(2) c(1) by simp
  have le: "\<not> c \<le>s c * 2 + 5" "c \<le>s of_nat (length xs)"
    using g c n by (simp_all add: word_sle_eq sint_of_nat32)
  then show ?thesis
    by (simp add: stList_append_def stList_length_def MINIMUM_ARRAY_EXPAND_SIZE_def rep_def
        st_list_appendP_def)
qed

section \<open>Destruction\<close>

declare destructElements_loop.simps [simp del]

lemma of_nat_Suc32: "(of_nat k :: int32) + 1 = of_nat (Suc k)"
  by simp

lemma call_destructElement_rep [simp]:
  "call_destructElement (Some (rep xs t c (Some f))) v = Inr (Destructor_call f v)"
  by (simp add: call_destructElement_def)

lemma destructElements_loop_rep:
  assumes "fits xs t c"
  shows "k \<le> length xs \<Longrightarrow>
    destructElements_loop (Some (rep xs t c (Some f))) (of_nat k) tr =
    Inr (tr @ map (Destructor_call f) (filter (\<lambda>v. v \<noteq> NULL) (drop k xs)))"
proof (induction "length xs - k" arbitrary: k tr)
  case 0
  then have "k = length xs" by simp
  then show ?case
    by (subst destructElements_loop.simps) (simp add: word_sless_alt)
next
  case (Suc m)
  then have k: "k < length xs" "Suc k \<le> length xs" "m = length xs - Suc k"
    by simp_all
  have n: "length xs < 2 ^ 31" "k < 2 ^ 31"
    using fits_bound [OF assms] k by simp_all
  have d: "drop k xs = xs ! k # drop (Suc k) xs"
    using k by (simp add: Cons_nth_drop_Suc)
  show ?case
    apply (subst destructElements_loop.simps)
    apply (simp only: of_nat_Suc32 stList_length_rep)
    using k n Suc.hyps(1) [OF k(3) k(2)]
    apply (simp add: sless_of_nat32 get_rep [OF assms] d)
    done
qed

lemma stList_destruct_rep:
  assumes "fits xs t c"
  shows "stList_destruct (Some (rep xs t c (Some f))) =
    Inr (map (Destructor_call f) (filter (\<lambda>v. v \<noteq> NULL) xs) @ [Free_buffer, Free_struct])"
  using destructElements_loop_rep [OF assms, of 0 f "[]"]
  by (simp add: stList_destruct_def destructElements_def)

text \<open>
  Claim C1, as the code has it. With a destructor registered, \<^verbatim>\<open>stList_destruct\<close> on a
  well-formed list calls the destructor once on each element that is not \<^verbatim>\<open>NULL\<close>, in index
  order from slot 0, then frees the array, then frees the struct, and does nothing else; an
  element that is \<^verbatim>\<open>NULL\<close> is skipped by the guard in \<^verbatim>\<open>destructElements\<close>. On the \<^verbatim>\<open>NULL\<close>
  list pointer it does nothing.
\<close>

theorem C1_destruct:
  "(valid_list l \<and> destructElement l = Some f \<longrightarrow>
      stList_destruct (Some l) =
      Inr (map (Destructor_call f) (filter (\<lambda>v. v \<noteq> NULL) (elems l))
           @ [Free_buffer, Free_struct]))
   \<and> stList_destruct None = Inr []"
proof (intro conjI impI)
  assume a: "valid_list l \<and> destructElement l = Some f"
  then obtain t where "l = rep (elems l) t (maxLength l) (Some f)"
    and "fits (elems l) t (maxLength l)"
    using valid_list_rep [of l] by metis
  then show "stList_destruct (Some l) =
      Inr (map (Destructor_call f) (filter (\<lambda>v. v \<noteq> NULL) (elems l))
           @ [Free_buffer, Free_struct])"
    using stList_destruct_rep [of "elems l" t "maxLength l" f] by simp
next
  show "stList_destruct None = Inr []"
    by (simp add: stList_destruct_def)
qed

lemma valid_one_elem: "valid_list one_elem"
  by (simp add: valid_list_def one_elem_def cells_def word_sle_eq)

lemma elems_one_elem: "elems one_elem = [Addr 1, NULL]"
  by (simp add: elems_def one_elem_def cells_def)

theorem C1_destruct_witness:
  "valid_list one_elem \<and> destructElement one_elem = Some 7 \<and>
   stList_destruct (Some one_elem) = Inr [Destructor_call 7 (Addr 1), Free_buffer, Free_struct]"
  using C1_destruct [of one_elem 7]
  by (simp add: valid_one_elem elems_one_elem) (simp add: one_elem_def)

text \<open>
  The claim as stated fails on a list that holds null elements: \<^verbatim>\<open>stList_construct3(2, f)\<close>
  followed by \<^verbatim>\<open>stList_destruct\<close> calls the destructor on neither of the two live elements.
\<close>

theorem C1_destruct_counterexample:
  "stList_construct3 2 (Some 7) = Inr (Some two_nulls) \<and>
   valid_list two_nulls \<and> elems two_nulls = [NULL, NULL] \<and>
   stList_destruct (Some two_nulls) = Inr [Free_buffer, Free_struct] \<and>
   stList_destruct (Some two_nulls) \<noteq>
     Inr (map (Destructor_call 7) (elems two_nulls) @ [Free_buffer, Free_struct])"
  by (simp add: stList_construct3_def st_calloc_def two_nulls_def valid_list_def cells_def
      elems_def stList_destruct_def destructElements_def numeral_2_eq_2
      destructElements_loop.simps stList_length_def stList_get_def read_cell_def
      word_sle_eq word_sless_alt)

section \<open>Append\<close>

lemma cells_rep: "fits xs t c \<Longrightarrow> cells (rep xs t c d) = map Cell xs"
  by (frule fits_bound) (simp add: cells_def sint_of_nat32)

lemma sint_length_rep: "fits xs t c \<Longrightarrow> sint (length_f (rep xs t c d)) = int (length xs)"
  by (frule fits_bound) (simp add: sint_of_nat32)

lemma fits_room: "fits xs (c0 # t) c \<Longrightarrow> fits (xs @ [v]) t c"
  by (simp add: fits_def)

lemma fits_grow:
  assumes "fits xs [] c" "2 * sint c + 5 < 2 ^ 31"
  shows "fits (xs @ [v]) (replicate (length xs + 4) Indeterminate) (c * 2 + 5)"
proof -
  have "sint c = int (length xs)"
    by (rule fits_full [OF assms(1), THEN conjunct1])
  then have "sint (c * 2 + 5) = 2 * int (length xs) + 5"
    using sint_grow [of c] assms(2) by simp
  then show ?thesis
    by (simp add: fits_def word_sle_eq)
qed

text \<open>
  Claim C2, as the code has it. On a well-formed list with \<open>length = maxLength\<close> and
  \<open>2 * maxLength + 5\<close> at most the largest \<^verbatim>\<open>int32_t\<close>, \<^verbatim>\<open>stList_append\<close> moves the elements to
  an array of exactly \<open>max (2 * maxLength + 5) (maxLength + 1)\<close> slots, each element in its
  position, writes the value at index \<open>length\<close> and adds 1 to \<open>length\<close>. With
  \<open>length < maxLength\<close> it writes into the same array, whose size and \<open>maxLength\<close> stay, and
  adds 1 to \<open>length\<close>.
\<close>

theorem C2_append:
  "valid_list l \<longrightarrow>
     (length_f l = maxLength l \<and> 2 * sint (maxLength l) + 5 < 2 ^ 31 \<longrightarrow>
        (\<exists>l'. stList_append (Some l) v = Inr (Some l') \<and>
              int (storage_slots l') = max (sint (maxLength l) * 2 + 5) (sint (maxLength l) + 1) \<and>
              sint (maxLength l') = int (storage_slots l') \<and>
              cells l' = cells l @ [Cell v] \<and>
              elems l' = elems l @ [v] \<and>
              sint (length_f l') = sint (length_f l) + 1 \<and>
              destructElement l' = destructElement l \<and>
              valid_list l')) \<and>
     (length_f l <s maxLength l \<longrightarrow>
        (\<exists>l'. stList_append (Some l) v = Inr (Some l') \<and>
              list_f l' = map_option (\<lambda>b. b[nat (sint (length_f l)) := Cell v]) (list_f l) \<and>
              maxLength l' = maxLength l \<and>
              cells l' = cells l @ [Cell v] \<and>
              elems l' = elems l @ [v] \<and>
              sint (length_f l') = sint (length_f l) + 1 \<and>
              destructElement l' = destructElement l \<and>
              valid_list l'))"
proof (intro impI conjI)
  assume v: "valid_list l"
  assume a: "length_f l = maxLength l \<and> 2 * sint (maxLength l) + 5 < 2 ^ 31"
  from v obtain t where l: "l = rep (elems l) t (maxLength l) (destructElement l)"
    and f: "fits (elems l) t (maxLength l)"
    by (rule valid_list_rep)
  let ?xs = "elems l" and ?c = "maxLength l" and ?d = "destructElement l"
  have "sint (length_f l) = int (length ?xs)"
    using sint_length_rep [OF f, of ?d] l by simp
  with a f have t: "t = []"
    by (simp add: fits_def word_sle_eq)
  let ?l' = "rep (?xs @ [v]) (replicate (length ?xs + 4) Indeterminate) (?c * 2 + 5) ?d"
  have f0: "fits ?xs [] ?c" using f t by simp
  have f': "fits (?xs @ [v]) (replicate (length ?xs + 4) Indeterminate) (?c * 2 + 5)"
    using fits_grow [OF f0] a by simp
  have c: "sint ?c = int (length ?xs)"
    by (rule fits_full [OF f0, THEN conjunct1])
  have g: "sint (?c * 2 + 5) = 2 * int (length ?xs) + 5"
    using sint_grow [of ?c] a c by simp
  have "stList_append (Some (rep ?xs [] ?c ?d)) v = Inr (Some ?l')"
    using append_rep_full [OF f0] a by simp
  then have 1: "stList_append (Some l) v = Inr (Some ?l')"
    using l t by simp
  have 2: "int (storage_slots ?l') = max (sint ?c * 2 + 5) (sint ?c + 1)"
    using c by (simp add: storage_slots_def)
  have 3: "sint (maxLength ?l') = int (storage_slots ?l')"
    using g by (simp add: storage_slots_def)
  have 4: "cells ?l' = cells l @ [Cell v]"
    using cells_rep [OF f'] cells_rep [OF f, of ?d] l by simp
  have 5: "elems ?l' = elems l @ [v]"
    using elems_rep [OF f'] by simp
  have 6: "sint (length_f ?l') = sint (length_f l) + 1"
    using sint_length_rep [OF f'] sint_length_rep [OF f, of ?d] l by simp
  have 7: "valid_list ?l'"
    using f' by (rule valid_rep)
  show "\<exists>l'. stList_append (Some l) v = Inr (Some l') \<and>
              int (storage_slots l') = max (sint (maxLength l) * 2 + 5) (sint (maxLength l) + 1) \<and>
              sint (maxLength l') = int (storage_slots l') \<and>
              cells l' = cells l @ [Cell v] \<and>
              elems l' = elems l @ [v] \<and>
              sint (length_f l') = sint (length_f l) + 1 \<and>
              destructElement l' = destructElement l \<and>
              valid_list l'"
    using 1 2 3 4 5 6 7 by (intro exI [of _ ?l']) simp
next
  assume v: "valid_list l"
  assume a: "length_f l <s maxLength l"
  from v obtain t where l: "l = rep (elems l) t (maxLength l) (destructElement l)"
    and f: "fits (elems l) t (maxLength l)"
    by (rule valid_list_rep)
  let ?xs = "elems l" and ?c = "maxLength l" and ?d = "destructElement l"
  have n: "sint (length_f l) = int (length ?xs)"
    using sint_length_rep [OF f, of ?d] l by simp
  have "int (length ?xs + length t) = sint ?c"
    using f by (simp add: fits_def word_sle_eq del: of_nat_add)
  then have "t \<noteq> []"
    using a n by (auto simp: word_sless_alt)
  then obtain c0 t' where t: "t = c0 # t'"
    by (cases t) auto
  let ?l' = "rep (?xs @ [v]) t' ?c ?d"
  have f0: "fits ?xs (c0 # t') ?c" using f t by simp
  have f': "fits (?xs @ [v]) t' ?c"
    using fits_room [OF f0] .
  have "stList_append (Some (rep ?xs (c0 # t') ?c ?d)) v = Inr (Some ?l')"
    using append_rep_room [OF f0] by simp
  then have 1: "stList_append (Some l) v = Inr (Some ?l')"
    using l t by simp
  have "list_f l = Some (map Cell ?xs @ c0 # t')"
    using l t rep_simps(1) [of ?xs t ?c ?d] by simp
  then have 2: "list_f ?l' = map_option (\<lambda>b. b[nat (sint (length_f l)) := Cell v]) (list_f l)"
    using n by (simp add: list_update_append)
  have 4: "cells ?l' = cells l @ [Cell v]"
    using cells_rep [OF f'] cells_rep [OF f, of ?d] l by simp
  have 5: "elems ?l' = elems l @ [v]"
    using elems_rep [OF f'] by simp
  have 6: "sint (length_f ?l') = sint (length_f l) + 1"
    using sint_length_rep [OF f'] sint_length_rep [OF f, of ?d] l by simp
  have 7: "valid_list ?l'"
    using f' by (rule valid_rep)
  show "\<exists>l'. stList_append (Some l) v = Inr (Some l') \<and>
              list_f l' = map_option (\<lambda>b. b[nat (sint (length_f l)) := Cell v]) (list_f l) \<and>
              maxLength l' = maxLength l \<and>
              cells l' = cells l @ [Cell v] \<and>
              elems l' = elems l @ [v] \<and>
              sint (length_f l') = sint (length_f l) + 1 \<and>
              destructElement l' = destructElement l \<and>
              valid_list l'"
    using 1 2 4 5 6 7 by (intro exI [of _ ?l']) simp
qed

lemmas list_eval =
  stList_length_def stList_get_def stList_set_def stList_append_def st_list_appendP_def
  st_malloc_def st_calloc_def memcpy_cells_def read_cell_def write_cell_def
  MINIMUM_ARRAY_EXPAND_SIZE_def valid_list_def cells_def elems_def storage_slots_def
  word_sle_eq word_sless_alt

theorem C2_append_witness:
  "valid_list full_one \<and> length_f full_one = maxLength full_one \<and>
   2 * sint (maxLength full_one) + 5 < 2 ^ 31 \<and>
   (\<exists>l'. stList_append (Some full_one) (Addr 2) = Inr (Some l') \<and>
         int (storage_slots l') = 7 \<and> sint (maxLength l') = 7 \<and>
         cells l' = [Cell (Addr 1), Cell (Addr 2)] \<and> sint (length_f l') = 2) \<and>
   valid_list room_one \<and> length_f room_one <s maxLength room_one \<and>
   (\<exists>l'. stList_append (Some room_one) (Addr 2) = Inr (Some l') \<and>
         list_f l' = Some [Cell (Addr 1), Cell (Addr 2)] \<and> maxLength l' = 2 \<and>
         sint (length_f l') = 2)"
proof -
  have 1: "valid_list full_one" "length_f full_one = maxLength full_one"
    "2 * sint (maxLength full_one) + 5 < 2 ^ 31" "cells full_one = [Cell (Addr 1)]"
    by (simp_all add: full_one_def list_eval)
  have 2: "valid_list room_one" "length_f room_one <s maxLength room_one"
    "list_f room_one = Some [Cell (Addr 1), Indeterminate]" "sint (length_f room_one) = 1"
    "maxLength room_one = 2" "sint (maxLength full_one) = 1"
    by (simp_all add: room_one_def full_one_def list_eval)
  show ?thesis
    using C2_append [of full_one "Addr 2"] C2_append [of room_one "Addr 2"] 1 2
    by auto
qed

text \<open>
  The claim as stated fails on a full list of 1073741822 elements: \<open>2 * maxLength + 5\<close> is
  2147483649, which no \<^verbatim>\<open>int32_t\<close> holds; the product wraps to -2147483647 and the
  assertion of \<^verbatim>\<open>st_list_appendP\<close> fails. Nothing is appended.
\<close>

theorem C2_append_counterexample:
  "stList_construct2 1073741822 = Inr (Some full_list) \<and>
   valid_list full_list \<and> length_f full_list = maxLength full_list \<and>
   stList_append (Some full_list) (Addr 1) = Inl AssertionFailure"
  by (simp add: stList_construct2_def stList_construct3_def full_list_def list_eval)

section \<open>Removal\<close>

declare stList_remove_loop.simps [simp del]

lemma of_nat_Suc_int32: "(of_nat (Suc k) :: int32) = of_nat k + 1"
  by (simp only: of_nat_Suc add.commute)

lemma of_nat_pred32: "0 < k \<Longrightarrow> (of_nat k :: int32) - 1 = of_nat (k - 1)"
  by (cases k) simp_all

lemma shift_step:
  assumes "0 < k" "k < length xs"
  shows "take k (xs[k - 1 := xs ! k]) @ drop (Suc k) (xs[k - 1 := xs ! k])
           @ [last (xs[k - 1 := xs ! k])]
         = take (k - 1) xs @ drop k xs @ [last xs]"
proof -
  from assms obtain j where j: "k = Suc j" by (cases k) auto
  have 1: "take (Suc j) (xs[j := xs ! Suc j]) = take j xs @ [xs ! Suc j]"
    using assms j by (simp add: take_Suc_conv_app_nth)
  have 2: "drop (Suc (Suc j)) (xs[j := xs ! Suc j]) = drop (Suc (Suc j)) xs"
    by simp
  have 3: "last (xs[j := xs ! Suc j]) = last xs"
    using assms j by (subst last_list_update) auto
  have 4: "drop (Suc j) xs = xs ! Suc j # drop (Suc (Suc j)) xs"
    using assms j by (simp add: Cons_nth_drop_Suc)
  show ?thesis
    unfolding j using 1 2 3 4 by simp
qed

lemma remove_loop_rep:
  "fits xs t c \<Longrightarrow> 0 < k \<Longrightarrow> k \<le> length xs \<Longrightarrow>
   stList_remove_loop (Some (rep xs t c d)) (of_nat k) =
   Inr (Some (rep (take (k - 1) xs @ drop k xs @ [last xs]) t c d))"
proof (induction "length xs - k" arbitrary: xs k)
  case 0
  then have k: "k = length xs" "xs \<noteq> []" by auto
  then have e: "take (k - 1) xs @ drop k xs @ [last xs] = xs"
    using append_butlast_last_id [of xs] by (simp add: butlast_conv_take)
  have c: "\<not> of_nat k <s stList_length (Some (rep xs t c d))"
    using k by (simp add: word_sless_alt)
  show ?case
    by (subst stList_remove_loop.simps) (simp only: c e if_False)
next
  case (Suc m)
  then have k: "k < length xs" "0 < k" by simp_all
  have n: "length xs < 2 ^ 31" "k < 2 ^ 31"
    using fits_bound [OF Suc.prems(1)] k by simp_all
  let ?xs' = "xs[k - 1 := xs ! k]"
  have f': "fits ?xs' t c" using Suc.prems(1) by simp
  have "stList_remove_loop (Some (rep ?xs' t c d)) (of_nat (Suc k)) =
      Inr (Some (rep (take (Suc k - 1) ?xs' @ drop (Suc k) ?xs' @ [last ?xs']) t c d))"
  proof (rule Suc.hyps(1) [OF _ f'])
    show "m = length ?xs' - Suc k" using Suc.hyps(2) by simp
    show "0 < Suc k" by simp
    show "Suc k \<le> length ?xs'" using k by simp
  qed
  then have ih: "stList_remove_loop (Some (rep ?xs' t c d)) (of_nat k + 1) =
      Inr (Some (rep (take k ?xs' @ drop (Suc k) ?xs' @ [last ?xs']) t c d))"
    by (simp only: of_nat_Suc_int32 diff_Suc_1)
  have s: "stList_set (Some (rep xs t c d)) (of_nat k - 1) (xs ! k) = Inr (Some (rep ?xs' t c d))"
    unfolding of_nat_pred32 [OF k(2)] using k by (intro set_rep [OF Suc.prems(1)]) simp
  have c: "of_nat k <s stList_length (Some (rep xs t c d))"
    using k n by (simp add: sless_of_nat32)
  have g: "stList_get (Some (rep xs t c d)) (of_nat k) = Inr (xs ! k)"
    by (rule get_rep [OF Suc.prems(1) k(1)])
  show ?case
    by (subst stList_remove_loop.simps)
      (simp only: c g s ih if_True bindF_Inr shift_step [OF k(2) k(1)])
qed

lemma rep_drop_last:
  "(rep (ys @ zs @ [w]) t c d)\<lparr>length_f := length_f (rep (ys @ zs @ [w]) t c d) - 1\<rparr> =
   rep (ys @ zs) (Cell w # t) c d"
  by (simp add: rep_def)

lemma remove_rep:
  assumes "fits xs t c" "k < length xs"
  shows "stList_remove (Some (rep xs t c d)) (of_nat k) =
         Inr (xs ! k, Some (rep (take k xs @ drop (Suc k) xs) (Cell (last xs) # t) c d))"
proof -
  have n: "length xs < 2 ^ 31" "k < 2 ^ 31"
    using fits_bound [OF assms(1)] assms(2) by simp_all
  have "stList_remove_loop (Some (rep xs t c d)) (of_nat (Suc k)) =
      Inr (Some (rep (take (Suc k - 1) xs @ drop (Suc k) xs @ [last xs]) t c d))"
    using assms(2) by (intro remove_loop_rep [OF assms(1)]) simp_all
  then have "stList_remove_loop (Some (rep xs t c d)) (of_nat k + 1) =
      Inr (Some (rep (take k xs @ drop (Suc k) xs @ [last xs]) t c d))"
    by (simp only: of_nat_Suc_int32 diff_Suc_1)
  moreover have "0 \<le>s (of_nat k :: int32)" "of_nat k <s stList_length (Some (rep xs t c d))"
    using n assms(2) by (simp_all add: zero_sle_of_nat32 sless_of_nat32)
  ultimately show ?thesis
    using get_rep [OF assms, of d]
    by (simp only: stList_remove_def not_True_eq_False if_False bindF_Inr option.case
        rep_drop_last)
qed

lemma fits_remove:
  assumes "fits xs t c" "k < length xs"
  shows "fits (take k xs @ drop (Suc k) xs) (Cell w # t) c"
  using assms by (auto simp: fits_def)

lemma remove_valid:
  assumes "valid_list l" "0 \<le>s i" "i <s length_f l"
  shows "\<exists>l'. stList_remove (Some l) i = Inr (elems l ! nat (sint i), Some l') \<and>
              elems l' = take (nat (sint i)) (elems l) @ drop (Suc (nat (sint i))) (elems l) \<and>
              sint (length_f l') = sint (length_f l) - 1 \<and>
              maxLength l' = maxLength l \<and>
              destructElement l' = destructElement l \<and>
              valid_list l'"
proof -
  from assms(1) obtain t where l: "l = rep (elems l) t (maxLength l) (destructElement l)"
    and f: "fits (elems l) t (maxLength l)"
    by (rule valid_list_rep)
  let ?xs = "elems l" and ?c = "maxLength l" and ?d = "destructElement l"
  let ?k = "nat (sint i)"
  have n: "sint (length_f l) = int (length ?xs)"
    using sint_length_rep [OF f, of ?d] l by simp
  have k: "?k < length ?xs" "of_nat ?k = i"
    using assms(2,3) n by (simp_all add: word_sle_eq word_sless_alt)
  let ?l' = "rep (take ?k ?xs @ drop (Suc ?k) ?xs) (Cell (last ?xs) # t) ?c ?d"
  have f': "fits (take ?k ?xs @ drop (Suc ?k) ?xs) (Cell (last ?xs) # t) ?c"
    using fits_remove [OF f k(1)] .
  have "stList_remove (Some (rep ?xs t ?c ?d)) (of_nat ?k) = Inr (?xs ! ?k, Some ?l')"
    by (rule remove_rep [OF f k(1)])
  then have 1: "stList_remove (Some l) i = Inr (?xs ! ?k, Some ?l')"
    using l k(2) by simp
  have 2: "elems ?l' = take ?k ?xs @ drop (Suc ?k) ?xs"
    by (rule elems_rep [OF f'])
  have 3: "sint (length_f ?l') = sint (length_f l) - 1"
    using sint_length_rep [OF f', of ?d] n k(1) by simp
  have 4: "valid_list ?l'"
    using f' by (rule valid_rep)
  show ?thesis
    using 1 2 3 4 by (intro exI [of _ ?l']) simp
qed

lemma abc_list_facts:
  "valid_list abc_list" "elems abc_list = [Addr 10, Addr 20, Addr 30]"
  "length_f abc_list = 3" "maxLength abc_list = 3" "destructElement abc_list = None"
  by (simp_all add: abc_list_def valid_list_def cells_def elems_def word_sle_eq)

text \<open>
  Claim C4. On a well-formed list and an index \<open>0 \<le> i < length\<close>, \<^verbatim>\<open>stList_remove\<close> returns
  the element at \<open>i\<close>; the elements before \<open>i\<close> stay, each element after \<open>i\<close> moves one
  position down, so the order of the others is kept; \<open>length\<close> drops by exactly 1.
  \<^verbatim>\<open>stList_removeFirst\<close> is \<^verbatim>\<open>stList_remove\<close> at index 0, on every argument.
\<close>

theorem C4_remove:
  "(valid_list l \<and> 0 \<le>s i \<and> i <s length_f l \<longrightarrow>
     (\<exists>l'. stList_remove (Some l) i = Inr (elems l ! nat (sint i), Some l') \<and>
           elems l' = take (nat (sint i)) (elems l) @ drop (Suc (nat (sint i))) (elems l) \<and>
           (\<forall>j. j < nat (sint i) \<longrightarrow> elems l' ! j = elems l ! j) \<and>
           (\<forall>j. nat (sint i) < j \<and> j < length (elems l) \<longrightarrow> elems l' ! (j - 1) = elems l ! j) \<and>
           length (elems l') = length (elems l) - 1 \<and>
           sint (length_f l') = sint (length_f l) - 1 \<and>
           valid_list l'))
   \<and> stList_removeFirst list = stList_remove list 0"
proof (intro conjI impI)
  assume a: "valid_list l \<and> 0 \<le>s i \<and> i <s length_f l"
  let ?k = "nat (sint i)" and ?xs = "elems l"
  from a obtain l' where r: "stList_remove (Some l) i = Inr (?xs ! ?k, Some l')"
    and e: "elems l' = take ?k ?xs @ drop (Suc ?k) ?xs"
    and n: "sint (length_f l') = sint (length_f l) - 1"
    and v: "valid_list l'"
    using remove_valid [of l i] by blast
  from a obtain t where l: "l = rep ?xs t (maxLength l) (destructElement l)"
    and f: "fits ?xs t (maxLength l)"
    using valid_list_rep [of l] by blast
  have "sint (length_f l) = int (length ?xs)"
    using sint_length_rep [OF f, of "destructElement l"] l by simp
  with a have k: "?k < length ?xs"
    by (auto simp: word_sle_eq word_sless_alt nat_less_iff)
  have 1: "\<forall>j. j < ?k \<longrightarrow> elems l' ! j = ?xs ! j"
    using k by (simp add: e nth_append)
  have 2: "\<forall>j. ?k < j \<and> j < length ?xs \<longrightarrow> elems l' ! (j - 1) = ?xs ! j"
    using k by (auto simp: e nth_append)
  have 3: "length (elems l') = length ?xs - 1"
    using k by (simp add: e)
  show "\<exists>l'. stList_remove (Some l) i = Inr (?xs ! ?k, Some l') \<and>
           elems l' = take ?k ?xs @ drop (Suc ?k) ?xs \<and>
           (\<forall>j. j < ?k \<longrightarrow> elems l' ! j = ?xs ! j) \<and>
           (\<forall>j. ?k < j \<and> j < length ?xs \<longrightarrow> elems l' ! (j - 1) = ?xs ! j) \<and>
           length (elems l') = length ?xs - 1 \<and>
           sint (length_f l') = sint (length_f l) - 1 \<and>
           valid_list l'"
    using r e n v 1 2 3 by blast
next
  show "stList_removeFirst list = stList_remove list 0"
    by (simp add: stList_removeFirst_def)
qed

theorem C4_remove_witness:
  "valid_list abc_list \<and> (0 :: int32) \<le>s 1 \<and> 1 <s length_f abc_list \<and>
   (\<exists>l'. stList_remove (Some abc_list) 1 = Inr (Addr 20, Some l') \<and>
         elems l' = [Addr 10, Addr 30] \<and> sint (length_f l') = 2 \<and> valid_list l') \<and>
   stList_removeFirst (Some abc_list) = stList_remove (Some abc_list) 0"
proof -
  have h: "valid_list abc_list \<and> (0 :: int32) \<le>s 1 \<and> 1 <s length_f abc_list"
    by (simp add: abc_list_facts word_sle_eq word_sless_alt)
  have "\<exists>l'. stList_remove (Some abc_list) 1 = Inr (elems abc_list ! nat (sint (1 :: int32)), Some l') \<and>
           elems l' = take (nat (sint (1 :: int32))) (elems abc_list)
                      @ drop (Suc (nat (sint (1 :: int32)))) (elems abc_list) \<and>
           sint (length_f l') = sint (length_f abc_list) - 1 \<and> valid_list l'"
    using C4_remove [of abc_list 1 "Some abc_list"] h by blast
  then have 1: "\<exists>l'. stList_remove (Some abc_list) 1 = Inr (Addr 20, Some l') \<and>
         elems l' = [Addr 10, Addr 30] \<and> sint (length_f l') = 2 \<and> valid_list l'"
    by (auto simp: abc_list_facts)
  have 2: "stList_removeFirst (Some abc_list) = stList_remove (Some abc_list) 0"
    using C4_remove [of abc_list 1 "Some abc_list"] by blast
  show ?thesis
    using h 1 2 by blast
qed

text \<open>
  Claim C7. \<^verbatim>\<open>stList_pop\<close> is \<^verbatim>\<open>stList_remove\<close> at index \<open>length - 1\<close>, on every argument.
  On a well-formed list with \<open>length > 0\<close> it returns the last element, \<open>length\<close> drops by 1
  and the other elements stay; no assertion fails. On a well-formed empty list the index is
  \<open>-1\<close> and the assertion \<^verbatim>\<open>index >= 0\<close> of \<^verbatim>\<open>stList_remove\<close> fails: no value is returned.
\<close>

theorem C7_pop:
  "stList_pop list = stList_remove list (stList_length list - 1) \<and>
   (valid_list l \<and> 0 <s length_f l \<longrightarrow>
     (\<exists>l'. stList_pop (Some l) = Inr (last (elems l), Some l') \<and>
           elems l' = butlast (elems l) \<and>
           sint (length_f l') = sint (length_f l) - 1 \<and>
           valid_list l') \<and>
     stList_pop (Some l) \<noteq> Inl AssertionFailure) \<and>
   (valid_list l \<and> length_f l = 0 \<longrightarrow> stList_pop (Some l) = Inl AssertionFailure)"
proof (intro conjI impI)
  show "stList_pop list = stList_remove list (stList_length list - 1)"
    by (simp add: stList_pop_def)
next
  assume a: "valid_list l \<and> 0 <s length_f l"
  let ?xs = "elems l" and ?i = "length_f l - 1"
  from a obtain t where l: "l = rep ?xs t (maxLength l) (destructElement l)"
    and f: "fits ?xs t (maxLength l)"
    using valid_list_rep [of l] by blast
  have n: "sint (length_f l) = int (length ?xs)"
    using sint_length_rep [OF f, of "destructElement l"] l by simp
  with a have pos: "0 < length ?xs"
    by (simp add: word_sless_alt)
  have "length_f l = of_nat (length ?xs)"
    using l rep_simps(2) [of ?xs t "maxLength l" "destructElement l"] by simp
  then have i: "?i = of_nat (length ?xs - 1)"
    using pos of_nat_pred32 [of "length ?xs"] by simp
  have b: "length ?xs - 1 < 2 ^ 31"
    using fits_bound [OF f] by simp
  have si: "sint ?i = int (length ?xs) - 1"
    using i sint_of_nat32 [OF b] pos by simp
  have c: "0 \<le>s ?i" "?i <s length_f l"
    using si n pos by (simp_all add: word_sle_eq word_sless_alt)
  have k: "nat (sint ?i) = length ?xs - 1"
    using si by simp
  from remove_valid [OF _ c] a obtain l' where
    r: "stList_remove (Some l) ?i = Inr (?xs ! nat (sint ?i), Some l')"
    and e: "elems l' = take (nat (sint ?i)) ?xs @ drop (Suc (nat (sint ?i))) ?xs"
    and m: "sint (length_f l') = sint (length_f l) - 1"
    and v: "valid_list l'"
    by blast
  have 1: "stList_pop (Some l) = Inr (last ?xs, Some l')"
    using r pos by (simp add: stList_pop_def stList_length_def k last_conv_nth)
  have 2: "elems l' = butlast ?xs"
    using e pos by (simp add: k butlast_conv_take)
  show "\<exists>l'. stList_pop (Some l) = Inr (last ?xs, Some l') \<and> elems l' = butlast ?xs \<and>
           sint (length_f l') = sint (length_f l) - 1 \<and> valid_list l'"
    using 1 2 m v by blast
  show "stList_pop (Some l) \<noteq> Inl AssertionFailure"
    using 1 by simp
next
  assume "valid_list l \<and> length_f l = 0"
  then show "stList_pop (Some l) = Inl AssertionFailure"
    by (simp add: stList_pop_def stList_length_def stList_remove_def word_sle_eq)
qed

lemma empty_list_facts:
  "stList_construct = Inr (Some empty_list)" "valid_list empty_list" "elems empty_list = []"
  "length_f empty_list = 0" "maxLength empty_list = 0"
  by (simp_all add: empty_list_def stList_construct_def stList_construct3_def st_calloc_def
      valid_list_def cells_def elems_def word_sle_eq)

theorem C7_pop_witness:
  "valid_list abc_list \<and> 0 <s length_f abc_list \<and>
   (\<exists>l'. stList_pop (Some abc_list) = Inr (Addr 30, Some l') \<and>
         elems l' = [Addr 10, Addr 20] \<and> sint (length_f l') = 2) \<and>
   valid_list empty_list \<and> length_f empty_list = 0 \<and>
   stList_pop (Some empty_list) = Inl AssertionFailure"
proof -
  have h: "valid_list abc_list \<and> 0 <s length_f abc_list"
    by (simp add: abc_list_facts word_sless_alt)
  have h': "valid_list empty_list \<and> length_f empty_list = 0"
    by (simp add: empty_list_facts)
  have "\<exists>l'. stList_pop (Some abc_list) = Inr (last (elems abc_list), Some l') \<and>
           elems l' = butlast (elems abc_list) \<and>
           sint (length_f l') = sint (length_f abc_list) - 1 \<and> valid_list l'"
    using C7_pop [of "Some abc_list" abc_list] h by blast
  then have 1: "\<exists>l'. stList_pop (Some abc_list) = Inr (Addr 30, Some l') \<and>
           elems l' = [Addr 10, Addr 20] \<and> sint (length_f l') = 2"
    by (auto simp: abc_list_facts)
  have 2: "stList_pop (Some empty_list) = Inl AssertionFailure"
    using C7_pop [of "Some empty_list" empty_list] h' by blast
  show ?thesis
    using h h' 1 2 by blast
qed

section \<open>Reversal\<close>

declare stList_reverse_loop.simps [simp del]

lemma half32:
  assumes "n < 2 ^ 31"
  shows "(word_of_int (sint (of_nat n :: int32) sdiv 2) :: int32) = of_nat (n div 2)"
proof -
  have "sint (of_nat n :: int32) sdiv 2 = int n div 2"
    using assms by (simp add: sint_of_nat32 signed_divide_int_def sgn_if)
  also have "\<dots> = int (n div 2)"
    by simp
  finally show ?thesis
    by (simp only: of_int_of_nat_eq)
qed

lemma mirror_index: "x + 1 + y - 1 - y = x" for x y :: int32
  by simp

lemma reverse_loop_rep:
  "fits (A @ M @ B) t c \<Longrightarrow> length A = length B \<Longrightarrow>
   stList_reverse_loop (Some (rep (A @ M @ B) t c d)) (of_nat (length A))
     (of_nat (length (A @ M @ B))) =
   Inr (Some (rep (A @ rev M @ B) t c d))"
proof (induction "length M" arbitrary: A M B rule: less_induct)
  case less
  let ?xs = "A @ M @ B" and ?k = "length A"
  let ?n = "length ?xs"
  have n: "?n < 2 ^ 31" using fits_bound [OF less.prems(1)] .
  have h: "(word_of_int (sint (of_nat ?n :: int32) sdiv 2) :: int32) = of_nat (?n div 2)"
    using n by (rule half32)
  have cond: "(of_nat ?k <s (of_nat (?n div 2) :: int32)) = (?k < ?n div 2)"
    using n by (intro sless_of_nat32) simp_all
  show ?case
  proof (cases "length M < 2")
    case True
    then have "rev M = M"
      by (cases M) (auto simp: length_Suc_conv)
    moreover have "\<not> ?k < ?n div 2"
      using True less.prems(2) by simp
    ultimately show ?thesis
      by (subst stList_reverse_loop.simps) (simp only: h cond if_False)
  next
    case False
    then obtain a M0 where M0: "M = a # M0" "M0 \<noteq> []"
      by (cases M) auto
    then obtain M' b where M: "M = a # M' @ [b]"
      using rev_exhaust [of M0] by auto
    let ?ys = "(A @ [b]) @ M' @ (a # B)"
    have lt: "?k < ?n div 2"
      using M less.prems(2) by simp
    have e: "?n = (?k + Suc (length M')) + 1 + ?k"
      using M less.prems(2) by simp
    have "(of_nat ?n :: int32) = of_nat (?k + Suc (length M')) + 1 + of_nat ?k"
      by (subst e) (simp only: of_nat_add of_nat_1)
    then have idx: "(of_nat ?n :: int32) - 1 - of_nat ?k = of_nat (?k + Suc (length M'))"
      by (simp only: mirror_index)
    have g1: "stList_get (Some (rep ?xs t c d)) (of_nat (?k + Suc (length M'))) = Inr b"
      using get_rep [OF less.prems(1), of "?k + Suc (length M')" d] M
      by (simp add: nth_append)
    have g2: "stList_get (Some (rep ?xs t c d)) (of_nat ?k) = Inr a"
      using get_rep [OF less.prems(1), of ?k d] M by (simp add: nth_append)
    let ?xs1 = "?xs[?k + Suc (length M') := a]"
    have s1: "stList_set (Some (rep ?xs t c d)) (of_nat (?k + Suc (length M'))) a =
              Inr (Some (rep ?xs1 t c d))"
      using M by (intro set_rep [OF less.prems(1)]) simp
    have f1: "fits ?xs1 t c" using less.prems(1) by simp
    have s2: "stList_set (Some (rep ?xs1 t c d)) (of_nat ?k) b = Inr (Some (rep (?xs1[?k := b]) t c d))"
      using M by (intro set_rep [OF f1]) simp
    have ys: "?xs1[?k := b] = ?ys"
      using M by (simp add: list_update_append nth_append)
    have fy: "fits ?ys t c"
      using less.prems(1) M by (simp add: fits_def)
    have "stList_reverse_loop (Some (rep ?ys t c d)) (of_nat (length (A @ [b])))
            (of_nat (length ?ys)) = Inr (Some (rep ((A @ [b]) @ rev M' @ (a # B)) t c d))"
      using M less.prems(2) by (intro less.hyps fy) simp_all
    moreover have "of_nat (length (A @ [b])) = (of_nat ?k :: int32) + 1"
      by (simp only: length_append_singleton of_nat_Suc_int32)
    moreover have "length ?ys = ?n"
      using M by simp
    moreover have "(A @ [b]) @ rev M' @ (a # B) = A @ rev M @ B"
      using M by simp
    ultimately have ih: "stList_reverse_loop (Some (rep ?ys t c d)) (of_nat ?k + 1) (of_nat ?n) =
        Inr (Some (rep (A @ rev M @ B) t c d))"
      by (simp only:)
    show ?thesis
      by (subst stList_reverse_loop.simps)
        (simp only: h cond lt if_True idx g1 g2 s1 s2 ys ih bindF_Inr)
  qed
qed

lemma reverse_rep:
  assumes "fits xs t c"
  shows "stList_reverse (Some (rep xs t c d)) = Inr (Some (rep (rev xs) t c d))"
  using reverse_loop_rep [of "[]" xs "[]" t c d] assms
  by (simp add: stList_reverse_def)

lemma fits_rev [simp]: "fits (rev xs) t c = fits xs t c"
  by (simp add: fits_def)

text \<open>
  Claim C9. On a well-formed list \<^verbatim>\<open>stList_reverse\<close> puts the element of index \<open>i\<close> at index
  \<open>length - 1 - i\<close>: the elements are those of the list in reverse order, \<open>length\<close> stays.
  Reversing the result gives back the list as it was.
\<close>

theorem C9_reverse:
  "valid_list l \<longrightarrow>
     (\<exists>l'. stList_reverse (Some l) = Inr (Some l') \<and>
           elems l' = rev (elems l) \<and>
           (\<forall>i. i < length (elems l) \<longrightarrow> elems l' ! (length (elems l) - 1 - i) = elems l ! i) \<and>
           length_f l' = length_f l \<and>
           valid_list l' \<and>
           stList_reverse (Some l') = Inr (Some l)) \<and>
     bindF (stList_reverse (Some l)) stList_reverse = Inr (Some l)"
proof (intro impI)
  assume v: "valid_list l"
  then obtain t where l: "l = rep (elems l) t (maxLength l) (destructElement l)"
    and f: "fits (elems l) t (maxLength l)"
    by (rule valid_list_rep)
  let ?xs = "elems l" and ?c = "maxLength l" and ?d = "destructElement l"
  let ?l' = "rep (rev ?xs) t ?c ?d"
  have f': "fits (rev ?xs) t ?c" using f by simp
  have "stList_reverse (Some (rep ?xs t ?c ?d)) = Inr (Some ?l')"
    by (rule reverse_rep [OF f])
  then have 1: "stList_reverse (Some l) = Inr (Some ?l')"
    using l by simp
  have 2: "elems ?l' = rev ?xs"
    by (rule elems_rep [OF f'])
  have 3: "\<forall>i. i < length ?xs \<longrightarrow> elems ?l' ! (length ?xs - 1 - i) = ?xs ! i"
    by (simp add: 2 rev_nth)
  have 4: "length_f ?l' = length_f l"
    using l rep_simps(2) [of ?xs t ?c ?d] by simp
  have 5: "valid_list ?l'"
    using f' by (rule valid_rep)
  have "stList_reverse (Some ?l') = Inr (Some (rep (rev (rev ?xs)) t ?c ?d))"
    by (rule reverse_rep [OF f'])
  then have 6: "stList_reverse (Some ?l') = Inr (Some l)"
    using l by simp
  have 7: "bindF (stList_reverse (Some l)) stList_reverse = Inr (Some l)"
    using 1 6 by simp
  show "(\<exists>l'. stList_reverse (Some l) = Inr (Some l') \<and>
           elems l' = rev (elems l) \<and>
           (\<forall>i. i < length (elems l) \<longrightarrow> elems l' ! (length (elems l) - 1 - i) = elems l ! i) \<and>
           length_f l' = length_f l \<and>
           valid_list l' \<and>
           stList_reverse (Some l') = Inr (Some l)) \<and>
     bindF (stList_reverse (Some l)) stList_reverse = Inr (Some l)"
    using 1 2 3 4 5 6 7 by blast
qed

theorem C9_reverse_witness:
  "valid_list abc_list \<and>
   (\<exists>l'. stList_reverse (Some abc_list) = Inr (Some l') \<and>
         elems l' = [Addr 30, Addr 20, Addr 10] \<and>
         stList_reverse (Some l') = Inr (Some abc_list)) \<and>
   bindF (stList_reverse (Some abc_list)) stList_reverse = Inr (Some abc_list)"
proof -
  have h: "valid_list abc_list"
    by (simp add: abc_list_facts)
  have "(\<exists>l'. stList_reverse (Some abc_list) = Inr (Some l') \<and>
           elems l' = rev (elems abc_list) \<and>
           stList_reverse (Some l') = Inr (Some abc_list)) \<and>
        bindF (stList_reverse (Some abc_list)) stList_reverse = Inr (Some abc_list)"
    using C9_reverse [of abc_list] h by blast
  then show ?thesis
    using h by (simp add: abc_list_facts)
qed

section \<open>Iterators\<close>

lemma valid_index:
  assumes "valid_list l" "0 \<le>s i" "i <s length_f l"
  shows "nat (sint i) < length (elems l)" "sint (i + 1) = sint i + 1"
    "stList_get (Some l) i = Inr (elems l ! nat (sint i))"
proof -
  from assms(1) obtain t where l: "l = rep (elems l) t (maxLength l) (destructElement l)"
    and f: "fits (elems l) t (maxLength l)"
    by (rule valid_list_rep)
  have n: "sint (length_f l) = int (length (elems l))"
    using sint_length_rep [OF f, of "destructElement l"] l by simp
  show k: "nat (sint i) < length (elems l)"
    using assms(2,3) n by (auto simp: word_sle_eq word_sless_alt nat_less_iff)
  show "sint (i + 1) = sint i + 1"
    using assms(3) by (rule sint_succ)
  have "stList_get (Some (rep (elems l) t (maxLength l) (destructElement l))) (of_nat (nat (sint i)))
        = Inr (elems l ! nat (sint i))"
    by (rule get_rep [OF f k])
  moreover have "of_nat (nat (sint i)) = i"
    using assms(2) by (simp add: word_sle_eq)
  ultimately show "stList_get (Some l) i = Inr (elems l ! nat (sint i))"
    using l by simp
qed

lemma sint_pred: "0 <s i \<Longrightarrow> sint (i - 1) = sint i - 1" for i :: int32
  using sint_lt [of i]
  by (simp add: word_sless_alt sint_word_ariths signed_take_bit_int_eq_self)

lemma getNext_valid:
  assumes "it_list it = Some l" "valid_list l" "0 \<le>s it_index it" "it_index it <s length_f l"
  shows "stList_getNext it =
         Inr (elems l ! nat (sint (it_index it)), it\<lparr>it_index := it_index it + 1\<rparr>)"
proof -
  have "\<not> length_f l \<le>s it_index it"
    using assms(4) by (simp add: word_sle_eq word_sless_alt)
  then show ?thesis
    using assms(1) valid_index(3) [OF assms(2,3,4)]
    by (simp add: stList_getNext_def stList_length_def)
qed

lemma getNext_end:
  "it_list it = None \<or> stList_length (it_list it) \<le>s it_index it \<Longrightarrow>
   stList_getNext it = Inr (NULL, it)"
  by (auto simp: stList_getNext_def)

lemma getPrevious_valid:
  assumes "it_list it = Some l" "valid_list l" "0 <s it_index it" "it_index it \<le>s length_f l"
  shows "stList_getPrevious it =
         Inr (elems l ! (nat (sint (it_index it)) - 1), it\<lparr>it_index := it_index it - 1\<rparr>)"
proof -
  let ?i = "it_index it - 1"
  have s: "sint ?i = sint (it_index it) - 1"
    using assms(3) by (rule sint_pred)
  have c: "0 \<le>s ?i" "?i <s length_f l" "it_index it \<noteq> 0"
    using assms(3,4) s by (auto simp: word_sle_eq word_sless_alt)
  have "nat (sint ?i) = nat (sint (it_index it)) - 1"
    using s by simp
  then show ?thesis
    using assms(1) c(3) valid_index(3) [OF assms(2) c(1,2)]
    by (simp add: stList_getPrevious_def)
qed

lemma getNext_times_valid:
  assumes "valid_list l"
  shows "j \<le> length (elems l) \<Longrightarrow>
    getNext_times k \<lparr>it_list = Some l, it_index = of_nat j\<rparr> =
    Inr \<lparr>it_list = Some l, it_index = of_nat (min (j + k) (length (elems l)))\<rparr>"
proof (induction k arbitrary: j)
  case 0
  then show ?case by (simp add: min_def)
next
  case (Suc k)
  from assms obtain t where l: "l = rep (elems l) t (maxLength l) (destructElement l)"
    and f: "fits (elems l) t (maxLength l)"
    by (rule valid_list_rep)
  let ?n = "length (elems l)"
  let ?it = "\<lparr>it_list = Some l, it_index = of_nat j\<rparr>"
  have n: "?n < 2 ^ 31" "j < 2 ^ 31"
    using fits_bound [OF f] Suc.prems by simp_all
  have len: "length_f l = of_nat ?n"
    using l rep_simps(2) [of "elems l" t "maxLength l" "destructElement l"] by simp
  show ?case
  proof (cases "j < ?n")
    case True
    have c: "0 \<le>s it_index ?it" "it_index ?it <s length_f l"
      using n True by (simp_all add: len zero_sle_of_nat32 sless_of_nat32)
    have "stList_getNext ?it = Inr (elems l ! nat (sint (it_index ?it)), ?it\<lparr>it_index := it_index ?it + 1\<rparr>)"
      using c by (intro getNext_valid assms) simp_all
    then have g: "stList_getNext ?it = Inr (elems l ! j, \<lparr>it_list = Some l, it_index = of_nat (Suc j)\<rparr>)"
      using n by (simp add: sint_of_nat32)
    have "getNext_times k \<lparr>it_list = Some l, it_index = of_nat (Suc j)\<rparr> =
          Inr \<lparr>it_list = Some l, it_index = of_nat (min (Suc j + k) ?n)\<rparr>"
      using True by (intro Suc.IH) simp
    then show ?thesis
      using g by simp
  next
    case False
    then have j: "j = ?n" using Suc.prems by simp
    have "stList_getNext ?it = Inr (NULL, ?it)"
      by (rule getNext_end) (simp add: stList_length_def len j word_sle_eq)
    moreover have "getNext_times k ?it = Inr \<lparr>it_list = Some l, it_index = of_nat (min (j + k) ?n)\<rparr>"
      using Suc.prems by (rule Suc.IH)
    ultimately show ?thesis
      using j by simp
  qed
qed

lemma exhausted_valid:
  assumes "valid_list l" "elems l \<noteq> []" "length (elems l) \<le> k"
  shows "\<exists>it'. getNext_times k (stList_getIterator (Some l)) = Inr it' \<and>
           it_list it' = Some l \<and> it_index it' = length_f l \<and>
           stList_getNext it' = Inr (NULL, it') \<and>
           stList_getPrevious it' = Inr (last (elems l), it'\<lparr>it_index := length_f l - 1\<rparr>)"
proof -
  from assms(1) obtain t where l: "l = rep (elems l) t (maxLength l) (destructElement l)"
    and f: "fits (elems l) t (maxLength l)"
    by (rule valid_list_rep)
  let ?n = "length (elems l)"
  let ?it' = "\<lparr>it_list = Some l, it_index = length_f l\<rparr>"
  have n: "?n < 2 ^ 31" "0 < ?n"
    using fits_bound [OF f] assms(2) by simp_all
  have len: "length_f l = of_nat ?n"
    using l rep_simps(2) [of "elems l" t "maxLength l" "destructElement l"] by simp
  have sl: "sint (length_f l) = int ?n"
    using n by (simp add: len sint_of_nat32)
  have "getNext_times k \<lparr>it_list = Some l, it_index = of_nat 0\<rparr> =
        Inr \<lparr>it_list = Some l, it_index = of_nat (min (0 + k) ?n)\<rparr>"
    by (rule getNext_times_valid [OF assms(1)]) simp
  then have 1: "getNext_times k (stList_getIterator (Some l)) = Inr ?it'"
    using assms(3) by (simp add: stList_getIterator_def len min_def)
  have 2: "stList_getNext ?it' = Inr (NULL, ?it')"
    by (rule getNext_end) (simp add: stList_length_def word_sle_eq)
  have "stList_getPrevious ?it' =
        Inr (elems l ! (nat (sint (it_index ?it')) - 1), ?it'\<lparr>it_index := it_index ?it' - 1\<rparr>)"
    using n sl by (intro getPrevious_valid assms(1)) (simp_all add: word_sle_eq word_sless_alt)
  then have 3: "stList_getPrevious ?it' = Inr (last (elems l), ?it'\<lparr>it_index := length_f l - 1\<rparr>)"
    using assms(2) sl by (simp add: last_conv_nth)
  show ?thesis
    using 1 2 3 by (intro exI [of _ ?it']) simp
qed

text \<open>
  Claim C5. \<^verbatim>\<open>stList_getNext\<close> returns \<^verbatim>\<open>NULL\<close> and leaves the iterator as it is when the
  list pointer is \<^verbatim>\<open>NULL\<close> or \<open>index \<ge> length\<close>; on a well-formed list with
  \<open>0 \<le> index < length\<close> it returns the element at \<open>index\<close> and adds 1 to \<open>index\<close>.
  \<^verbatim>\<open>stList_getPrevious\<close> returns \<^verbatim>\<open>NULL\<close> and leaves the iterator as it is when the list
  pointer is \<^verbatim>\<open>NULL\<close> or \<open>index = 0\<close>; on a well-formed list with \<open>0 < index \<le> length\<close> it
  subtracts 1 from \<open>index\<close> and returns the element now at \<open>index\<close>. After \<open>k\<close> calls of
  \<^verbatim>\<open>stList_getNext\<close> on a fresh iterator of a well-formed list that is not empty, \<open>k\<close> at least
  the length, the iterator is exhausted (\<open>index = length\<close>, the next call returns \<^verbatim>\<open>NULL\<close> and
  does not move) and one call of \<^verbatim>\<open>stList_getPrevious\<close> returns the last element.
\<close>

theorem C5_iterator:
  "(it_list it = None \<or> stList_length (it_list it) \<le>s it_index it \<longrightarrow>
      stList_getNext it = Inr (NULL, it)) \<and>
   (it_list it = Some l \<and> valid_list l \<and> 0 \<le>s it_index it \<and> it_index it <s length_f l \<longrightarrow>
      stList_getNext it =
        Inr (elems l ! nat (sint (it_index it)), it\<lparr>it_index := it_index it + 1\<rparr>) \<and>
      sint (it_index it + 1) = sint (it_index it) + 1) \<and>
   (it_list it = None \<or> it_index it = 0 \<longrightarrow>
      stList_getPrevious it = Inr (NULL, it)) \<and>
   (it_list it = Some l \<and> valid_list l \<and> 0 <s it_index it \<and> it_index it \<le>s length_f l \<longrightarrow>
      stList_getPrevious it =
        Inr (elems l ! (nat (sint (it_index it)) - 1), it\<lparr>it_index := it_index it - 1\<rparr>) \<and>
      sint (it_index it - 1) = sint (it_index it) - 1) \<and>
   (valid_list l \<and> elems l \<noteq> [] \<and> length (elems l) \<le> k \<longrightarrow>
      (\<exists>it'. getNext_times k (stList_getIterator (Some l)) = Inr it' \<and>
            it_list it' = Some l \<and> it_index it' = length_f l \<and>
            stList_getNext it' = Inr (NULL, it') \<and>
            stList_getPrevious it' = Inr (last (elems l), it'\<lparr>it_index := length_f l - 1\<rparr>)))"
proof (intro conjI impI)
  assume "it_list it = None \<or> stList_length (it_list it) \<le>s it_index it"
  then show "stList_getNext it = Inr (NULL, it)"
    by (rule getNext_end)
next
  assume a: "it_list it = Some l \<and> valid_list l \<and> 0 \<le>s it_index it \<and> it_index it <s length_f l"
  then show "stList_getNext it =
      Inr (elems l ! nat (sint (it_index it)), it\<lparr>it_index := it_index it + 1\<rparr>)"
    by (intro getNext_valid) simp_all
  from a show "sint (it_index it + 1) = sint (it_index it) + 1"
    by (intro sint_succ [of _ "length_f l"]) simp
next
  assume "it_list it = None \<or> it_index it = 0"
  then show "stList_getPrevious it = Inr (NULL, it)"
    by (auto simp: stList_getPrevious_def)
next
  assume a: "it_list it = Some l \<and> valid_list l \<and> 0 <s it_index it \<and> it_index it \<le>s length_f l"
  then show "stList_getPrevious it =
      Inr (elems l ! (nat (sint (it_index it)) - 1), it\<lparr>it_index := it_index it - 1\<rparr>)"
    by (intro getPrevious_valid) simp_all
  from a show "sint (it_index it - 1) = sint (it_index it) - 1"
    by (intro sint_pred) simp
next
  assume "valid_list l \<and> elems l \<noteq> [] \<and> length (elems l) \<le> k"
  then show "\<exists>it'. getNext_times k (stList_getIterator (Some l)) = Inr it' \<and>
            it_list it' = Some l \<and> it_index it' = length_f l \<and>
            stList_getNext it' = Inr (NULL, it') \<and>
            stList_getPrevious it' = Inr (last (elems l), it'\<lparr>it_index := length_f l - 1\<rparr>)"
    by (intro exhausted_valid) simp_all
qed

theorem C5_iterator_witness:
  "stList_getNext no_list_iterator = Inr (NULL, no_list_iterator) \<and>
   stList_getPrevious no_list_iterator = Inr (NULL, no_list_iterator) \<and>
   stList_getNext abc_at_end = Inr (NULL, abc_at_end) \<and>
   stList_getNext abc_at_1 = Inr (Addr 20, abc_at_1\<lparr>it_index := 2\<rparr>) \<and>
   stList_getPrevious abc_at_1 = Inr (Addr 10, abc_at_1\<lparr>it_index := 0\<rparr>) \<and>
   stList_getPrevious abc_at_end = Inr (Addr 30, abc_at_end\<lparr>it_index := 2\<rparr>) \<and>
   getNext_times 4 (stList_getIterator (Some abc_list)) = Inr abc_at_end"
proof -
  note f = abc_list_facts abc_at_1_def abc_at_end_def no_list_iterator_def stList_length_def
    word_sle_eq word_sless_alt
  have 1: "stList_getNext no_list_iterator = Inr (NULL, no_list_iterator)"
    using C5_iterator [of no_list_iterator abc_list 4] by (simp add: f)
  have 2: "stList_getPrevious no_list_iterator = Inr (NULL, no_list_iterator)"
    using C5_iterator [of no_list_iterator abc_list 4] by (simp add: f)
  have 3: "stList_getNext abc_at_end = Inr (NULL, abc_at_end)"
    using C5_iterator [of abc_at_end abc_list 4] by (simp add: f)
  have 4: "stList_getNext abc_at_1 = Inr (Addr 20, abc_at_1\<lparr>it_index := 2\<rparr>)"
    using C5_iterator [of abc_at_1 abc_list 4] by (simp add: f)
  have 5: "stList_getPrevious abc_at_1 = Inr (Addr 10, abc_at_1\<lparr>it_index := 0\<rparr>)"
    using C5_iterator [of abc_at_1 abc_list 4] by (simp add: f)
  have 6: "stList_getPrevious abc_at_end = Inr (Addr 30, abc_at_end\<lparr>it_index := 2\<rparr>)"
    using C5_iterator [of abc_at_end abc_list 4] by (simp add: f)
  have "valid_list abc_list \<and> elems abc_list \<noteq> [] \<and> length (elems abc_list) \<le> 4"
    by (simp add: f)
  then have "\<exists>it'. getNext_times 4 (stList_getIterator (Some abc_list)) = Inr it' \<and>
            it_list it' = Some abc_list \<and> it_index it' = length_f abc_list"
    using C5_iterator [of abc_at_end abc_list 4] by blast
  then have 7: "getNext_times 4 (stList_getIterator (Some abc_list)) = Inr abc_at_end"
    by (auto simp: f)
  show ?thesis
    using 1 2 3 4 5 6 7 by blast
qed

lemma null_inside_facts:
  "valid_list null_inside" "elems null_inside = [Addr 10, NULL, Addr 30]"
  "length_f null_inside = 3"
  by (simp_all add: null_inside_def valid_list_def cells_def elems_def word_sle_eq)

text \<open>
  Claim C10. When the element at the iterator's index is \<^verbatim>\<open>NULL\<close>, \<^verbatim>\<open>stList_getNext\<close> returns
  \<^verbatim>\<open>NULL\<close> and still adds 1 to \<open>index\<close>. The value returned is the one an exhausted iterator
  of the same list returns, so it does not tell the two apart. With a further element the
  next call returns that element: the calls go on past the null element.
\<close>

theorem C10_null_element:
  "it_list it = Some l \<and> valid_list l \<and> 0 \<le>s it_index it \<and> it_index it <s length_f l \<and>
   elems l ! nat (sint (it_index it)) = NULL \<longrightarrow>
     stList_getNext it = Inr (NULL, it\<lparr>it_index := it_index it + 1\<rparr>) \<and>
     sint (it_index it + 1) = sint (it_index it) + 1 \<and>
     stList_getNext (it\<lparr>it_index := length_f l\<rparr>) = Inr (NULL, it\<lparr>it_index := length_f l\<rparr>) \<and>
     (it_index it + 1 <s length_f l \<longrightarrow>
        bindF (stList_getNext it) (\<lambda>(v, it'). stList_getNext it') =
        Inr (elems l ! (nat (sint (it_index it)) + 1), it\<lparr>it_index := it_index it + 1 + 1\<rparr>))"
proof (intro impI conjI)
  assume a: "it_list it = Some l \<and> valid_list l \<and> 0 \<le>s it_index it \<and> it_index it <s length_f l \<and>
   elems l ! nat (sint (it_index it)) = NULL"
  then have "stList_getNext it =
      Inr (elems l ! nat (sint (it_index it)), it\<lparr>it_index := it_index it + 1\<rparr>)"
    by (intro getNext_valid) simp_all
  with a show 1: "stList_getNext it = Inr (NULL, it\<lparr>it_index := it_index it + 1\<rparr>)"
    by simp
  from a show s: "sint (it_index it + 1) = sint (it_index it) + 1"
    by (intro sint_succ [of _ "length_f l"]) simp
  from a show "stList_getNext (it\<lparr>it_index := length_f l\<rparr>) = Inr (NULL, it\<lparr>it_index := length_f l\<rparr>)"
    by (intro getNext_end) (simp add: stList_length_def word_sle_eq)
  assume b: "it_index it + 1 <s length_f l"
  let ?it' = "it\<lparr>it_index := it_index it + 1\<rparr>"
  have "0 \<le>s it_index ?it'"
    using a s by (simp add: word_sle_eq)
  then have "stList_getNext ?it' =
      Inr (elems l ! nat (sint (it_index ?it')), ?it'\<lparr>it_index := it_index ?it' + 1\<rparr>)"
    using a b by (intro getNext_valid) simp_all
  moreover have "nat (sint (it_index ?it')) = nat (sint (it_index it)) + 1"
    using a s by (simp add: word_sle_eq nat_add_distrib)
  ultimately show "bindF (stList_getNext it) (\<lambda>(v, it'). stList_getNext it') =
        Inr (elems l ! (nat (sint (it_index it)) + 1), it\<lparr>it_index := it_index it + 1 + 1\<rparr>)"
    using 1 by simp
qed

theorem C10_null_element_witness:
  "it_list null_inside_at_1 = Some null_inside \<and> valid_list null_inside \<and>
   0 \<le>s it_index null_inside_at_1 \<and> it_index null_inside_at_1 <s length_f null_inside \<and>
   elems null_inside ! nat (sint (it_index null_inside_at_1)) = NULL \<and>
   stList_getNext null_inside_at_1 = Inr (NULL, null_inside_at_1\<lparr>it_index := 2\<rparr>) \<and>
   stList_getNext (null_inside_at_1\<lparr>it_index := 3\<rparr>) =
     Inr (NULL, null_inside_at_1\<lparr>it_index := 3\<rparr>) \<and>
   bindF (stList_getNext null_inside_at_1) (\<lambda>(v, it'). stList_getNext it') =
     Inr (Addr 30, null_inside_at_1\<lparr>it_index := 3\<rparr>)"
proof -
  note f = null_inside_facts null_inside_at_1_def word_sle_eq word_sless_alt
  have h: "it_list null_inside_at_1 = Some null_inside \<and> valid_list null_inside \<and>
   0 \<le>s it_index null_inside_at_1 \<and> it_index null_inside_at_1 <s length_f null_inside \<and>
   elems null_inside ! nat (sint (it_index null_inside_at_1)) = NULL"
    by (simp add: f)
  from C10_null_element [of null_inside_at_1 null_inside] h
  have t: "stList_getNext null_inside_at_1 =
        Inr (NULL, null_inside_at_1\<lparr>it_index := it_index null_inside_at_1 + 1\<rparr>)"
    "stList_getNext (null_inside_at_1\<lparr>it_index := length_f null_inside\<rparr>) =
        Inr (NULL, null_inside_at_1\<lparr>it_index := length_f null_inside\<rparr>)"
    "it_index null_inside_at_1 + 1 <s length_f null_inside \<longrightarrow>
        bindF (stList_getNext null_inside_at_1) (\<lambda>(v, it'). stList_getNext it') =
        Inr (elems null_inside ! (nat (sint (it_index null_inside_at_1)) + 1),
             null_inside_at_1\<lparr>it_index := it_index null_inside_at_1 + 1 + 1\<rparr>)"
    by blast+
  have 1: "stList_getNext null_inside_at_1 = Inr (NULL, null_inside_at_1\<lparr>it_index := 2\<rparr>)"
    using t(1) by (simp add: f)
  have 2: "stList_getNext (null_inside_at_1\<lparr>it_index := 3\<rparr>) =
     Inr (NULL, null_inside_at_1\<lparr>it_index := 3\<rparr>)"
    using t(2) by (simp add: f)
  have 3: "bindF (stList_getNext null_inside_at_1) (\<lambda>(v, it'). stList_getNext it') =
     Inr (Addr 30, null_inside_at_1\<lparr>it_index := 3\<rparr>)"
    using t(3) by (simp add: f)
  show ?thesis
    using h 1 2 3 by blast
qed

section \<open>Sequences of appends\<close>

lemma grown_0: "grown 0"
  by (auto simp: grown_def intro: exI [of _ 0])

lemma grown_le: "grown c \<Longrightarrow> sint c \<le> 1342177275"
proof -
  assume "grown c"
  then obtain k where k: "k \<le> 28" "sint c + 5 = 5 * 2 ^ k"
    by (auto simp: grown_def)
  have "(2 :: int) ^ k \<le> 2 ^ 28"
    using k(1) by (intro power_increasing) simp_all
  with k(2) show ?thesis by simp
qed

lemma grown_double:
  assumes "grown c" "sint c < 1342177275"
  shows "2 * sint c + 5 < 2 ^ 31" "0 \<le> sint c \<Longrightarrow> grown (c * 2 + 5)"
proof -
  from assms(1) obtain k where k: "k \<le> 28" "sint c + 5 = 5 * 2 ^ k"
    by (auto simp: grown_def)
  have "k \<noteq> 28"
    using k(2) assms(2) by auto
  with k(1) have k27: "k \<le> 27" by simp
  have "(2 :: int) ^ k \<le> 2 ^ 27"
    using k27 by (intro power_increasing) simp_all
  with k(2) show b: "2 * sint c + 5 < 2 ^ 31" by simp
  assume "0 \<le> sint c"
  then have "sint (c * 2 + 5) = 2 * sint c + 5"
    using b by (intro sint_grow) simp_all
  then have "sint (c * 2 + 5) + 5 = 5 * 2 ^ Suc k"
    using k(2) by simp
  then show "grown (c * 2 + 5)"
    unfolding grown_def using k27 by (intro exI [of _ "Suc k"]) simp
qed

lemma append_grown:
  assumes "fits xs t c" "grown c" "length xs < 1342177275"
  shows "\<exists>t' c'. stList_append (Some (rep xs t c d)) v = Inr (Some (rep (xs @ [v]) t' c' d)) \<and>
           fits (xs @ [v]) t' c' \<and> grown c'"
proof (cases t)
  case Nil
  have f0: "fits xs [] c" using assms(1) Nil by simp
  have c: "sint c = int (length xs)"
    by (rule fits_full [OF f0, THEN conjunct1])
  have b: "2 * sint c + 5 < 2 ^ 31" and g: "grown (c * 2 + 5)"
    using grown_double [OF assms(2)] c assms(3) by simp_all
  show ?thesis
    using append_rep_full [OF f0 b, of d v] fits_grow [OF f0 b, of v] g Nil by blast
next
  case (Cons c0 t')
  have f0: "fits xs (c0 # t') c" using assms(1) Cons by simp
  show ?thesis
    using append_rep_room [OF f0, of d v] fits_room [OF f0, of v] assms(2) Cons by blast
qed

lemma append_seq_grown:
  "fits xs t c \<Longrightarrow> grown c \<Longrightarrow> length xs + length vs \<le> 1342177275 \<Longrightarrow>
   \<exists>t' c'. append_seq (Some (rep xs t c d)) vs = Inr (Some (rep (xs @ vs) t' c' d)) \<and>
          fits (xs @ vs) t' c' \<and> grown c'"
proof (induction vs arbitrary: xs t c)
  case Nil
  then show ?case by auto
next
  case (Cons v vs)
  have "length xs < 1342177275" using Cons.prems(3) by simp
  from append_grown [OF Cons.prems(1,2) this, of d v]
  obtain t1 c1 where 1: "stList_append (Some (rep xs t c d)) v = Inr (Some (rep (xs @ [v]) t1 c1 d))"
    and f1: "fits (xs @ [v]) t1 c1" and g1: "grown c1"
    by blast
  have "length (xs @ [v]) + length vs \<le> 1342177275"
    using Cons.prems(3) by simp
  from Cons.IH [OF f1 g1 this] 1 show ?case
    by simp
qed

lemma append_seq_append:
  "append_seq list (vs @ ws) = bindF (append_seq list vs) (\<lambda>list'. append_seq list' ws)"
proof (induction vs arbitrary: list)
  case Nil
  show ?case by simp
next
  case (Cons v vs)
  show ?case
    by (cases "stList_append list v") (simp_all add: Cons)
qed

lemma append_overflow_grown:
  assumes "fits xs t c" "grown c" "length xs = 1342177275"
  shows "stList_append (Some (rep xs t c d)) v = Inl AssertionFailure"
proof -
  have "int (length xs + length t) = sint c"
    using assms(1) by (simp add: fits_def word_sle_eq del: of_nat_add)
  with grown_le [OF assms(2)] assms(3) have "length t = 0" and c: "sint c = 1342177275"
    by linarith+
  then have t: "t = []" by simp
  have f0: "fits xs [] c" using assms(1) t by simp
  show ?thesis
    unfolding t using c by (intro append_rep_overflow [OF f0]) simp
qed

lemma empty_list_rep: "empty_list = rep [] [] 0 None" "fits [] [] 0"
  by (simp_all add: empty_list_def rep_def fits_def word_sle_eq)

lemma construct_append_seq:
  assumes "length vs \<le> 1342177275"
  shows "\<exists>l. bindF stList_construct (\<lambda>list. append_seq list vs) = Inr (Some l) \<and>
           valid_list l \<and> elems l = vs \<and> destructElement l = None"
proof -
  from append_seq_grown [OF empty_list_rep(2) grown_0, of vs None] assms
  obtain t' c' where 1: "append_seq (Some (rep [] [] 0 None)) vs = Inr (Some (rep vs t' c' None))"
    and f: "fits vs t' c'"
    by auto
  show ?thesis
    using 1 valid_rep [OF f, of None] elems_rep [OF f, of None]
    by (simp add: empty_list_facts(1) empty_list_rep(1))
qed

lemma construct_append_seq_overflow:
  assumes "length vs = 1342177276"
  shows "bindF stList_construct (\<lambda>list. append_seq list vs) = Inl AssertionFailure"
proof -
  from assms have "vs \<noteq> []" by auto
  then obtain ws w where vs: "vs = ws @ [w]"
    using rev_exhaust [of vs] by auto
  with assms have n: "length ws = 1342177275" by simp
  from append_seq_grown [OF empty_list_rep(2) grown_0, of ws None] n
  obtain t' c' where 1: "append_seq (Some (rep [] [] 0 None)) ws = Inr (Some (rep ws t' c' None))"
    and f: "fits ws t' c'" and g: "grown c'"
    by auto
  have "stList_append (Some (rep ws t' c' None)) w = Inl AssertionFailure"
    using f g n by (rule append_overflow_grown)
  then show ?thesis
    using 1 by (simp add: vs append_seq_append empty_list_facts(1) empty_list_rep(1))
qed

lemma valid_length: "valid_list l \<Longrightarrow> sint (length_f l) = int (length (elems l))"
  by (auto simp: valid_list_def elems_def cells_def word_sle_eq split: option.splits)

lemma valid_get:
  assumes "valid_list l" "i < length (elems l)"
  shows "stList_get (Some l) (of_nat i) = Inr (elems l ! i)"
proof -
  from assms(1) obtain t where l: "l = rep (elems l) t (maxLength l) (destructElement l)"
    and f: "fits (elems l) t (maxLength l)"
    by (rule valid_list_rep)
  show ?thesis
    by (subst l) (rule get_rep [OF f assms(2)])
qed

text \<open>
  Claim C3, as the code has it. For every sequence of \<open>N \<le> 1342177275\<close> values, the \<open>N\<close>
  calls of \<^verbatim>\<open>stList_append\<close> on the list \<^verbatim>\<open>stList_construct()\<close> returns all succeed; after
  them \<^verbatim>\<open>stList_length\<close> returns \<open>N\<close> and \<^verbatim>\<open>stList_get\<close> at every index \<open>i < N\<close> returns the
  \<open>i\<close>-th value appended.
\<close>

theorem C3_appends:
  "length vs \<le> 1342177275 \<longrightarrow>
     (\<exists>l. construct_and_append vs = Inr (Some l) \<and>
          sint (stList_length (Some l)) = int (length vs) \<and>
          (\<forall>i. i < length vs \<longrightarrow> stList_get (Some l) (of_nat i) = Inr (vs ! i)) \<and>
          elems l = vs \<and> valid_list l)"
proof
  assume "length vs \<le> 1342177275"
  from construct_append_seq [OF this] obtain l where
    1: "construct_and_append vs = Inr (Some l)"
    and v: "valid_list l" and e: "elems l = vs"
    unfolding construct_and_append_def by blast
  have 2: "sint (stList_length (Some l)) = int (length vs)"
    using valid_length [OF v] e by (simp add: stList_length_def)
  have 3: "\<forall>i. i < length vs \<longrightarrow> stList_get (Some l) (of_nat i) = Inr (vs ! i)"
    using valid_get [OF v] e by simp
  show "\<exists>l. construct_and_append vs = Inr (Some l) \<and>
          sint (stList_length (Some l)) = int (length vs) \<and>
          (\<forall>i. i < length vs \<longrightarrow> stList_get (Some l) (of_nat i) = Inr (vs ! i)) \<and>
          elems l = vs \<and> valid_list l"
    using 1 2 3 e v by blast
qed

theorem C3_appends_witness:
  "length [Addr 10, Addr 20, Addr 30] \<le> 1342177275 \<and>
   (\<exists>l. construct_and_append [Addr 10, Addr 20, Addr 30] = Inr (Some l) \<and>
        sint (stList_length (Some l)) = 3 \<and>
        stList_get (Some l) 0 = Inr (Addr 10) \<and>
        stList_get (Some l) 1 = Inr (Addr 20) \<and>
        stList_get (Some l) 2 = Inr (Addr 30))"
proof -
  let ?vs = "[Addr 10, Addr 20, Addr 30]"
  have h: "length ?vs \<le> 1342177275" by simp
  from C3_appends [of ?vs] h obtain l where
    1: "construct_and_append ?vs = Inr (Some l)"
    and 2: "sint (stList_length (Some l)) = int (length ?vs)"
    and 3: "\<forall>i. i < length ?vs \<longrightarrow> stList_get (Some l) (of_nat i) = Inr (?vs ! i)"
    by blast
  have 4: "stList_get (Some l) 0 = Inr (Addr 10)" "stList_get (Some l) 1 = Inr (Addr 20)"
    "stList_get (Some l) 2 = Inr (Addr 30)"
    using 3 [rule_format, of 0] 3 [rule_format, of 1] 3 [rule_format, of 2] by simp_all
  have 5: "sint (stList_length (Some l)) = 3"
    using 2 by simp
  show ?thesis
    using h 1 4 5 by blast
qed

text \<open>
  The claim as stated fails for \<open>N = 1342177276\<close>: after 1342177275 appends the list is full
  with \<open>maxLength = 1342177275\<close>, \<open>2 * maxLength + 5\<close> is beyond \<^verbatim>\<open>int32_t\<close>, and the next
  append fails the assertion of \<^verbatim>\<open>st_list_appendP\<close>.
\<close>

theorem C3_appends_counterexample:
  "construct_and_append (replicate 1342177276 NULL) = Inl AssertionFailure"
  unfolding construct_and_append_def by (rule construct_append_seq_overflow) simp

section \<open>Filters\<close>

declare filterP_loop.simps [simp del]

lemma filterP_loop_rep:
  assumes "fits xs t c"
  shows "k \<le> length xs \<Longrightarrow>
    filterP_loop (Some (rep xs t c d)) s inc list2 (of_nat k) =
    append_seq list2 (filter (\<lambda>v. (s v \<noteq> NULL \<and> inc) \<or> (s v = NULL \<and> \<not> inc)) (drop k xs))"
proof (induction "length xs - k" arbitrary: k list2)
  case 0
  then have "k = length xs" by simp
  then show ?case
    by (subst filterP_loop.simps) (simp add: word_sless_alt)
next
  case (Suc m)
  then have k: "k < length xs" by simp
  have n: "length xs < 2 ^ 31" "k < 2 ^ 31"
    using fits_bound [OF assms] k by simp_all
  have d: "drop k xs = xs ! k # drop (Suc k) xs"
    using k by (simp add: Cons_nth_drop_Suc)
  have c: "of_nat k <s (of_nat (length xs) :: int32)"
    using k n by (simp add: sless_of_nat32)
  have g: "stList_get (Some (rep xs t c d)) (of_nat k) = Inr (xs ! k)"
    by (rule get_rep [OF assms k])
  have ih: "\<And>list2. filterP_loop (Some (rep xs t c d)) s inc list2 (of_nat k + 1) =
      append_seq list2 (filter (\<lambda>v. (s v \<noteq> NULL \<and> inc) \<or> (s v = NULL \<and> \<not> inc)) (drop (Suc k) xs))"
    using Suc.hyps(1) [of "Suc k"] Suc.hyps(2) k
    by (simp only: of_nat_Suc_int32)
  show ?case
    by (subst filterP_loop.simps) (simp add: c g ih d del: of_nat_Suc)
qed

lemma filterP_rep:
  assumes "fits xs t c"
  shows "filterP (Some (rep xs t c d)) s inc =
    bindF stList_construct (\<lambda>list2. append_seq list2
      (filter (\<lambda>v. (s v \<noteq> NULL \<and> inc) \<or> (s v = NULL \<and> \<not> inc)) xs))"
  using filterP_loop_rep [OF assms, of 0 d s inc]
  by (simp add: filterP_def)

lemma filterP_valid:
  assumes "valid_list l"
    "length (filter (\<lambda>v. (s v \<noteq> NULL \<and> inc) \<or> (s v = NULL \<and> \<not> inc)) (elems l)) \<le> 1342177275"
  shows "\<exists>l2. filterP (Some l) s inc = Inr (Some l2) \<and> valid_list l2 \<and>
           elems l2 = filter (\<lambda>v. (s v \<noteq> NULL \<and> inc) \<or> (s v = NULL \<and> \<not> inc)) (elems l)"
proof -
  from assms(1) obtain t where l: "l = rep (elems l) t (maxLength l) (destructElement l)"
    and f: "fits (elems l) t (maxLength l)"
    by (rule valid_list_rep)
  have "filterP (Some l) s inc =
    bindF stList_construct (\<lambda>list2. append_seq list2
      (filter (\<lambda>v. (s v \<noteq> NULL \<and> inc) \<or> (s v = NULL \<and> \<not> inc)) (elems l)))"
    by (subst l) (rule filterP_rep [OF f])
  then show ?thesis
    using construct_append_seq [OF assms(2)] by auto
qed

text \<open>
  Claim C6, as the code has it. For a well-formed list and a sorted set,
  \<^verbatim>\<open>stList_filterToInclude\<close> returns the elements the set's search finds (the search does not
  return \<^verbatim>\<open>NULL\<close>) and \<^verbatim>\<open>stList_filterToExclude\<close> the others, each in the order of the
  source, provided neither result has more than 1342177275 elements. The two results
  partition the source: their multisets of elements add up to the source's.
\<close>

theorem C6_filter_partition:
  "valid_list l \<and>
   length (filter (\<lambda>v. s v \<noteq> NULL) (elems l)) \<le> 1342177275 \<and>
   length (filter (\<lambda>v. s v = NULL) (elems l)) \<le> 1342177275 \<longrightarrow>
     (\<exists>inc exc.
        stList_filterToInclude (Some l) s = Inr (Some inc) \<and>
        stList_filterToExclude (Some l) s = Inr (Some exc) \<and>
        valid_list inc \<and> valid_list exc \<and>
        elems inc = filter (\<lambda>v. s v \<noteq> NULL) (elems l) \<and>
        elems exc = filter (\<lambda>v. s v = NULL) (elems l) \<and>
        mset (elems inc) + mset (elems exc) = mset (elems l))"
proof
  assume a: "valid_list l \<and>
   length (filter (\<lambda>v. s v \<noteq> NULL) (elems l)) \<le> 1342177275 \<and>
   length (filter (\<lambda>v. s v = NULL) (elems l)) \<le> 1342177275"
  from a filterP_valid [of l s True] obtain inc where
    1: "filterP (Some l) s True = Inr (Some inc)" and v1: "valid_list inc"
    and e1: "elems inc = filter (\<lambda>v. s v \<noteq> NULL) (elems l)"
    by auto
  from a filterP_valid [of l s False] obtain exc where
    2: "filterP (Some l) s False = Inr (Some exc)" and v2: "valid_list exc"
    and e2: "elems exc = filter (\<lambda>v. s v = NULL) (elems l)"
    by auto
  have "mset (elems inc) + mset (elems exc) = mset (elems l)"
    using multiset_partition [of "mset (elems l)" "\<lambda>v. s v \<noteq> NULL"]
    by (simp add: e1 e2)
  then show "\<exists>inc exc.
        stList_filterToInclude (Some l) s = Inr (Some inc) \<and>
        stList_filterToExclude (Some l) s = Inr (Some exc) \<and>
        valid_list inc \<and> valid_list exc \<and>
        elems inc = filter (\<lambda>v. s v \<noteq> NULL) (elems l) \<and>
        elems exc = filter (\<lambda>v. s v = NULL) (elems l) \<and>
        mset (elems inc) + mset (elems exc) = mset (elems l)"
    using 1 2 v1 v2 e1 e2
    by (simp add: stList_filterToInclude_def stList_filterToExclude_def)
qed

theorem C6_filter_partition_witness:
  "valid_list abc_list \<and>
   length (filter (\<lambda>v. search_10_30 v \<noteq> NULL) (elems abc_list)) \<le> 1342177275 \<and>
   length (filter (\<lambda>v. search_10_30 v = NULL) (elems abc_list)) \<le> 1342177275 \<and>
   (\<exists>inc exc.
      stList_filterToInclude (Some abc_list) search_10_30 = Inr (Some inc) \<and>
      stList_filterToExclude (Some abc_list) search_10_30 = Inr (Some exc) \<and>
      elems inc = [Addr 10, Addr 30] \<and> elems exc = [Addr 20])"
proof -
  have h: "valid_list abc_list \<and>
   length (filter (\<lambda>v. search_10_30 v \<noteq> NULL) (elems abc_list)) \<le> 1342177275 \<and>
   length (filter (\<lambda>v. search_10_30 v = NULL) (elems abc_list)) \<le> 1342177275"
    by (simp add: abc_list_facts search_10_30_def)
  from C6_filter_partition [of abc_list search_10_30] h obtain inc exc where
    1: "stList_filterToInclude (Some abc_list) search_10_30 = Inr (Some inc)"
    "stList_filterToExclude (Some abc_list) search_10_30 = Inr (Some exc)"
    and 2: "elems inc = filter (\<lambda>v. search_10_30 v \<noteq> NULL) (elems abc_list)"
    "elems exc = filter (\<lambda>v. search_10_30 v = NULL) (elems abc_list)"
    by blast
  have 3: "elems inc = [Addr 10, Addr 30]" "elems exc = [Addr 20]"
    using 2 by (simp_all add: abc_list_facts search_10_30_def)
  show ?thesis
    using h 1 3 by blast
qed

lemma nulls_list_rep:
  "nulls_list = rep (replicate 1342177276 NULL) [] 1342177276 None"
  "fits (replicate 1342177276 NULL) [] 1342177276"
  by (simp_all add: nulls_list_def rep_def fits_def word_sle_eq)

text \<open>
  The claim as stated fails on a list of 1342177276 null elements and a set that finds
  nothing: every element belongs to the excluded part, and \<^verbatim>\<open>stList_filterToExclude\<close> fails
  the assertion of \<^verbatim>\<open>st_list_appendP\<close> when it appends the last one. It returns no list.
\<close>

theorem C6_filter_partition_counterexample:
  "stList_construct2 1342177276 = Inr (Some nulls_list) \<and>
   valid_list nulls_list \<and>
   stList_filterToExclude (Some nulls_list) search_nothing = Inl AssertionFailure"
proof -
  have 1: "stList_construct2 1342177276 = Inr (Some nulls_list)"
    by (simp add: stList_construct2_def stList_construct3_def st_calloc_def nulls_list_def
        word_sle_eq)
  have 2: "valid_list nulls_list"
    unfolding nulls_list_rep(1) using nulls_list_rep(2) by (rule valid_rep)
  have "filterP (Some (rep (replicate 1342177276 NULL) [] 1342177276 None)) search_nothing False
        = bindF stList_construct (\<lambda>list2. append_seq list2 (replicate 1342177276 NULL))"
    by (simp add: filterP_rep [OF nulls_list_rep(2)] search_nothing_def)
  also have "\<dots> = Inl AssertionFailure"
    by (rule construct_append_seq_overflow) simp
  finally have 3: "stList_filterToExclude (Some nulls_list) search_nothing = Inl AssertionFailure"
    by (simp add: stList_filterToExclude_def nulls_list_rep(1))
  show ?thesis
    using 1 2 3 by blast
qed

section \<open>The invariant on length and capacity\<close>

lemma inv_ptr_Some [simp]: "inv_ptr (Some l) = length_invariant l"
  by (simp add: inv_ptr_def)

lemma inv_ptr_sizes: "sizes a = sizes b \<Longrightarrow> inv_ptr a = inv_ptr b"
  by (cases a; cases b) (auto simp: sizes_def inv_ptr_def length_invariant_def)

lemma length_sizes: "sizes a = sizes b \<Longrightarrow> stList_length a = stList_length b"
  by (cases a; cases b) (auto simp: sizes_def stList_length_def)

lemma set_sizes: "stList_set list i v = Inr list' \<Longrightarrow> sizes list' = sizes list"
  by (auto simp: stList_set_def sizes_def bindF_def split: if_splits option.splits sum.splits)

lemma grow_not_same: "m * 2 + 5 = m \<Longrightarrow> sint m = - 5" for m :: int32
proof -
  assume "m * 2 + 5 = m"
  then have "m * 2 + 5 - m = 0" by simp
  then have "m + 5 = 0" by simp
  then have "m = - 5" by (simp add: add_eq_0_iff2)
  then show ?thesis by simp
qed

lemma append_inv:
  assumes "stList_append list v = Inr list'" "inv_ptr list"
  shows "inv_ptr list'"
proof -
  from assms(1) obtain l where l: "list = Some l"
    by (cases list) (auto simp: stList_append_def)
  from assms(2) l have i: "0 \<le> sint (length_f l)" "sint (length_f l) \<le> sint (maxLength l)"
    by (simp_all add: length_invariant_def word_sle_eq)
  show ?thesis
  proof (cases "maxLength l \<le>s length_f l")
    case True
    let ?c = "maxLength l * 2 + 5"
    from assms(1) l True obtain l' where
      2: "list' = Some l'" "length_f l' = length_f l + 1" "maxLength l' = ?c"
      and le: "maxLength l \<le>s ?c"
      by (auto simp: stList_append_def stList_length_def MINIMUM_ARRAY_EXPAND_SIZE_def
          st_list_appendP_def bindF_def split: sum.splits if_splits)
    from le have le: "sint (maxLength l) \<le> sint ?c"
      by (simp add: word_sle_eq)
    have "?c \<noteq> maxLength l"
      using grow_not_same [of "maxLength l"] i by auto
    then have "sint ?c \<noteq> sint (maxLength l)"
      by (auto dest: signed_word_eqI)
    with le i True have lt: "sint (length_f l) < sint ?c"
      by (simp add: word_sle_eq)
    then have "sint (length_f l + 1) = sint (length_f l) + 1"
      by (intro sint_succ [of _ ?c]) (simp add: word_sless_alt)
    with lt i show ?thesis
      by (simp add: 2 length_invariant_def word_sle_eq)
  next
    case False
    from assms(1) l False obtain l' where
      2: "list' = Some l'" "length_f l' = length_f l + 1" "maxLength l' = maxLength l"
      by (auto simp: stList_append_def stList_length_def bindF_def split: sum.splits)
    from False have lt: "sint (length_f l) < sint (maxLength l)"
      by (simp add: word_sle_eq)
    then have "sint (length_f l + 1) = sint (length_f l) + 1"
      by (intro sint_succ [of _ "maxLength l"]) (simp add: word_sless_alt)
    with lt i show ?thesis
      by (simp add: 2 length_invariant_def word_sle_eq)
  qed
qed

declare stList_appendAll_loop.simps [simp del]

declare stList_removeItem_loop.simps [simp del]

declare stList_shuffle_loop.simps [simp del]

declare stList_filter_loop.simps [simp del]

declare stList_join_loop.simps [simp del]

lemma remove_loop_sizes:
  "stList_remove_loop list i = Inr list' \<Longrightarrow> sizes list' = sizes list"
proof (induction list i arbitrary: list' rule: stList_remove_loop.induct)
  case (1 list i)
  show ?case
  proof (cases "i <s stList_length list")
    case False
    with "1.prems" show ?thesis
      by (subst (asm) stList_remove_loop.simps) simp
  next
    case True
    with "1.prems" obtain v list1 where g: "stList_get list i = Inr v"
      and s: "stList_set list (i - 1) v = Inr list1"
      and r: "stList_remove_loop list1 (i + 1) = Inr list'"
      by (subst (asm) stList_remove_loop.simps) (auto simp: bindF_def split: sum.splits)
    from "1.IH" [OF True g s r] set_sizes [OF s] show ?thesis
      by simp
  qed
qed

lemma remove_inv:
  assumes "stList_remove list index = Inr (v, list')" "inv_ptr list"
  shows "inv_ptr list'"
proof -
  from assms(1) obtain list1 l1 where c: "0 \<le>s index" "index <s stList_length list"
    and r: "stList_remove_loop list (index + 1) = Inr list1"
    and l1: "list1 = Some l1" "list' = Some (l1\<lparr>length_f := length_f l1 - 1\<rparr>)"
    by (auto simp: stList_remove_def bindF_def split: if_splits sum.splits option.splits)
  from remove_loop_sizes [OF r] l1(1) obtain l where l: "list = Some l"
    "length_f l1 = length_f l" "maxLength l1 = maxLength l"
    by (cases list) (auto simp: sizes_def)
  from c l(1) have pos: "0 <s length_f l"
    by (simp add: stList_length_def word_sle_eq word_sless_alt)
  have "sint (length_f l - 1) = sint (length_f l) - 1"
    using pos by (rule sint_pred)
  with assms(2) pos show ?thesis
    by (simp add: l l1 length_invariant_def word_sle_eq word_sless_alt)
qed

lemma removeItem_loop_inv:
  "stList_removeItem_loop list item i = Inr list' \<Longrightarrow> inv_ptr list \<Longrightarrow> inv_ptr list'"
proof (induction list item i arbitrary: list' rule: stList_removeItem_loop.induct)
  case (1 list item i)
  show ?case
  proof (cases "i <s stList_length list")
    case False
    with "1.prems" show ?thesis
      by (subst (asm) stList_removeItem_loop.simps) simp
  next
    case True
    with "1.prems"(1) obtain v where g: "stList_get list i = Inr v"
      and r: "(if v = item then bindF (stList_remove list i) (\<lambda>(removed, list'). Inr list')
               else stList_removeItem_loop list item (i + 1)) = Inr list'"
      by (subst (asm) stList_removeItem_loop.simps) (auto simp: bindF_def split: sum.splits)
    show ?thesis
    proof (cases "v = item")
      case True
      with r obtain removed where "stList_remove list i = Inr (removed, list')"
        by (auto simp: bindF_def split: sum.splits)
      then show ?thesis
        using "1.prems"(2) by (rule remove_inv)
    next
      case False
      with r have "stList_removeItem_loop list item (i + 1) = Inr list'"
        by simp
      from "1.IH" [OF True g False this "1.prems"(2)] show ?thesis .
    qed
  qed
qed

lemma reverse_loop_sizes:
  "stList_reverse_loop list i j = Inr list' \<Longrightarrow> sizes list' = sizes list"
proof (induction list i j arbitrary: list' rule: stList_reverse_loop.induct)
  case (1 list i j)
  show ?case
  proof (cases "i <s word_of_int (sint j sdiv 2)")
    case False
    with "1.prems" show ?thesis
      by (subst (asm) stList_reverse_loop.simps) simp
  next
    case True
    with "1.prems" obtain o' v list1 list2 where g1: "stList_get list (j - 1 - i) = Inr o'"
      and g2: "stList_get list i = Inr v"
      and s1: "stList_set list (j - 1 - i) v = Inr list1"
      and s2: "stList_set list1 i o' = Inr list2"
      and r: "stList_reverse_loop list2 (i + 1) j = Inr list'"
      by (subst (asm) stList_reverse_loop.simps) (auto simp: bindF_def split: sum.splits)
    from "1.IH" [OF True g1 g2 s1 s2 r] set_sizes [OF s1] set_sizes [OF s2] show ?thesis
      by simp
  qed
qed

lemma shuffle_loop_sizes:
  "stList_shuffle_loop rnd list i = Inr list' \<Longrightarrow> sizes list' = sizes list"
proof (induction rnd list i arbitrary: list' rule: stList_shuffle_loop.induct)
  case (1 rnd list i)
  show ?case
  proof (cases "i <s stList_length list")
    case False
    with "1.prems" show ?thesis
      by (subst (asm) stList_shuffle_loop.simps) simp
  next
    case True
    let ?j = "rnd (nat (sint i)) 0 (stList_length list)"
    from True "1.prems" obtain o' v list1 list2 where g1: "stList_get list i = Inr o'"
      and g2: "stList_get list ?j = Inr v"
      and s1: "stList_set list i v = Inr list1"
      and s2: "stList_set list1 ?j o' = Inr list2"
      and r: "stList_shuffle_loop rnd list2 (i + 1) = Inr list'"
      by (subst (asm) stList_shuffle_loop.simps)
        (auto simp: bindF_def Let_def split: sum.splits)
    from "1.IH" [OF True refl g1 g2 s1 s2 r] set_sizes [OF s1] set_sizes [OF s2] show ?thesis
      by simp
  qed
qed

lemma appendAll_loop_inv:
  "stList_appendAll_loop to add i = Inr to' \<Longrightarrow> inv_ptr to \<Longrightarrow> inv_ptr to'"
proof (induction to add i arbitrary: to' rule: stList_appendAll_loop.induct)
  case (1 to add i)
  show ?case
  proof (cases "i <s stList_length add")
    case False
    with "1.prems" show ?thesis
      by (subst (asm) stList_appendAll_loop.simps) simp
  next
    case True
    with "1.prems"(1) obtain v to1 where g: "stList_get add i = Inr v"
      and a: "stList_append to v = Inr to1"
      and r: "stList_appendAll_loop to1 add (i + 1) = Inr to'"
      by (subst (asm) stList_appendAll_loop.simps) (auto simp: bindF_def split: sum.splits)
    from "1.IH" [OF True g a r] append_inv [OF a "1.prems"(2)] show ?thesis
      by simp
  qed
qed

lemma appendAll_inv:
  "stList_appendAll to add = Inr to' \<Longrightarrow> inv_ptr to \<Longrightarrow> inv_ptr to'"
  by (auto simp: stList_appendAll_def split: if_splits dest: appendAll_loop_inv)

lemma filter_loop_inv:
  "stList_filter_loop list fn list2 i = Inr list2' \<Longrightarrow> inv_ptr list2 \<Longrightarrow> inv_ptr list2'"
proof (induction list fn list2 i arbitrary: list2' rule: stList_filter_loop.induct)
  case (1 list fn list2 i)
  show ?case
  proof (cases "i <s stList_length list")
    case False
    with "1.prems" show ?thesis
      by (subst (asm) stList_filter_loop.simps) simp
  next
    case True
    with "1.prems"(1) obtain o' l2 where g: "stList_get list i = Inr o'"
      and a: "(if fn o' then stList_append list2 o' else Inr list2) = Inr l2"
      and r: "stList_filter_loop list fn l2 (i + 1) = Inr list2'"
      by (subst (asm) stList_filter_loop.simps) (auto simp: bindF_def split: sum.splits)
    have "inv_ptr l2"
      using a "1.prems"(2) append_inv [of list2 o' l2] by (auto split: if_splits)
    from "1.IH" [OF True g a r this] show ?thesis .
  qed
qed

lemma filterP_loop_inv:
  "filterP_loop list s inc list2 i = Inr list2' \<Longrightarrow> inv_ptr list2 \<Longrightarrow> inv_ptr list2'"
proof (induction list s inc list2 i arbitrary: list2' rule: filterP_loop.induct)
  case (1 list s inc list2 i)
  show ?case
  proof (cases "i <s stList_length list")
    case False
    with "1.prems" show ?thesis
      by (subst (asm) filterP_loop.simps) simp
  next
    case True
    with "1.prems"(1) obtain o' l2 where g: "stList_get list i = Inr o'"
      and a: "(if (s o' \<noteq> NULL \<and> inc) \<or> (s o' = NULL \<and> \<not> inc)
               then stList_append list2 o' else Inr list2) = Inr l2"
      and r: "filterP_loop list s inc l2 (i + 1) = Inr list2'"
      by (subst (asm) filterP_loop.simps) (auto simp: bindF_def split: sum.splits)
    have "inv_ptr l2"
      using a "1.prems"(2) append_inv [of list2 o' l2] by (auto split: if_splits)
    from "1.IH" [OF True g a r this] show ?thesis .
  qed
qed

lemma join_loop_inv:
  "stList_join_loop heap listOfLists joined i = Inr joined' \<Longrightarrow> inv_ptr joined \<Longrightarrow> inv_ptr joined'"
proof (induction heap listOfLists joined i arbitrary: joined' rule: stList_join_loop.induct)
  case (1 heap listOfLists joined i)
  show ?case
  proof (cases "i <s stList_length listOfLists")
    case False
    with "1.prems" show ?thesis
      by (subst (asm) stList_join_loop.simps) simp
  next
    case True
    with "1.prems"(1) obtain p j1 where g: "stList_get listOfLists i = Inr p"
      and a: "stList_appendAll joined (deref heap p) = Inr j1"
      and r: "stList_join_loop heap listOfLists j1 (i + 1) = Inr joined'"
      by (subst (asm) stList_join_loop.simps) (auto simp: bindF_def split: sum.splits)
    from "1.IH" [OF True g a r] appendAll_inv [OF a "1.prems"(2)] show ?thesis
      by simp
  qed
qed

lemma construct3_inv: "stList_construct3 n d = Inr list \<Longrightarrow> inv_ptr list"
  by (auto simp: stList_construct3_def st_calloc_def bindF_def length_invariant_def
      word_sle_eq split: if_splits)

lemmas loop_simps = stList_appendAll_loop.simps stList_remove_loop.simps
  stList_removeItem_loop.simps stList_reverse_loop.simps stList_shuffle_loop.simps
  stList_filter_loop.simps filterP_loop.simps stList_join_loop.simps

lemmas op_defs = stList_construct_def stList_construct2_def stList_construct3_def
  stList_appendAll_def stList_remove_def stList_removeFirst_def stList_pop_def
  stList_removeItem_def stList_reverse_def stList_sort_def stList_shuffle_def
  stList_setDestructor_def stList_copy_def stList_filter_def filterP_def
  stList_filterToExclude_def stList_filterToInclude_def stList_join_def deref_def

text \<open>Each operation returns on these arguments.\<close>

lemma runs_construct: "\<exists>l'. stList_construct = Inr (Some l')"
  by (simp add: list_eval op_defs)

lemma runs_construct2: "\<exists>l'. stList_construct2 3 = Inr (Some l')"
  by (simp add: list_eval op_defs)

lemma runs_construct3: "\<exists>l'. stList_construct3 3 (Some 7) = Inr (Some l')"
  by (simp add: list_eval op_defs)

lemma runs_set: "\<exists>l'. stList_set (Some abc_list) 1 (Addr 40) = Inr (Some l')"
  by (simp add: abc_list_def list_eval op_defs loop_simps)

lemma runs_append: "\<exists>l'. stList_append (Some abc_list) (Addr 40) = Inr (Some l')"
  by (simp add: abc_list_def list_eval op_defs loop_simps)

lemma runs_appendAll: "\<exists>l'. stList_appendAll (Some abc_list) (Some full_one) = Inr (Some l')"
  by (simp add: abc_list_def full_one_def list_eval op_defs loop_simps)

lemma runs_remove: "\<exists>l'. stList_remove (Some abc_list) 1 = Inr (Addr 20, Some l')"
  by (simp add: abc_list_def list_eval op_defs loop_simps)

lemma runs_removeFirst: "\<exists>l'. stList_removeFirst (Some abc_list) = Inr (Addr 10, Some l')"
  by (simp add: abc_list_def list_eval op_defs loop_simps)

lemma runs_pop: "\<exists>l'. stList_pop (Some abc_list) = Inr (Addr 30, Some l')"
  by (simp add: abc_list_def list_eval op_defs loop_simps)

lemma runs_removeItem: "\<exists>l'. stList_removeItem (Some abc_list) (Addr 20) = Inr (Some l')"
  by (simp add: abc_list_def list_eval op_defs loop_simps)

lemma runs_reverse: "\<exists>l'. stList_reverse (Some abc_list) = Inr (Some l')"
  by (simp add: abc_list_def list_eval op_defs loop_simps signed_divide_int_def)

lemma runs_sort: "\<exists>l'. stList_sort keep_order (Some abc_list) no_order = Inr (Some l')"
  by (simp add: abc_list_def list_eval op_defs keep_order_def)

lemma runs_shuffle: "\<exists>l'. stList_shuffle pick_first (Some abc_list) = Inr (Some l')"
  by (simp add: abc_list_def list_eval op_defs loop_simps pick_first_def)

lemma runs_setDestructor: "\<exists>l'. stList_setDestructor (Some abc_list) (Some 7) = Inr (Some l')"
  by (simp add: abc_list_def list_eval op_defs loop_simps)

lemma runs_copy: "\<exists>l'. stList_copy (Some abc_list) None = Inr (Some l')"
  by (simp add: abc_list_def list_eval op_defs loop_simps)

lemma runs_filter: "\<exists>l'. stList_filter (Some null_inside) not_null = Inr (Some l')"
  by (simp add: null_inside_def list_eval op_defs loop_simps not_null_def)

lemma runs_filterToInclude: "\<exists>l'. stList_filterToInclude (Some abc_list) search_10_30 = Inr (Some l')"
  by (simp add: abc_list_def list_eval op_defs loop_simps search_10_30_def)

lemma runs_filterToExclude: "\<exists>l'. stList_filterToExclude (Some abc_list) search_10_30 = Inr (Some l')"
  by (simp add: abc_list_def list_eval op_defs loop_simps search_10_30_def)

lemma runs_join: "\<exists>l'. stList_join heap_of_abc (Some list_of_lists) = Inr (Some l')"
  by (simp add: abc_list_def list_of_lists_def list_eval op_defs loop_simps heap_of_abc_def)

text \<open>
  Claim C8. Every list a constructor returns satisfies \<open>0 \<le> length \<le> maxLength\<close>. Every
  operation that changes a list (set, append, appendAll on its target, remove, removeFirst,
  pop, removeItem, reverse, sort, shuffle, setDestructor) returns it satisfying the
  invariant when it satisfied it before, and every operation that builds a list (copy,
  filter, filterToInclude, filterToExclude, join) returns one that satisfies it. The
  operations that only read (length, get, peek, contains, the iterator's) leave the list as
  it is. A call that fails an assertion returns no list.
\<close>

theorem C8_length_invariant:
  "(stList_construct = Inr (Some l') \<longrightarrow> length_invariant l') \<and>
   (stList_construct2 n = Inr (Some l') \<longrightarrow> length_invariant l') \<and>
   (stList_construct3 n d = Inr (Some l') \<longrightarrow> length_invariant l') \<and>
   (length_invariant l \<longrightarrow>
      (stList_set (Some l) i v = Inr (Some l') \<longrightarrow> length_invariant l') \<and>
      (stList_append (Some l) v = Inr (Some l') \<longrightarrow> length_invariant l') \<and>
      (stList_appendAll (Some l) add = Inr (Some l') \<longrightarrow> length_invariant l') \<and>
      (stList_remove (Some l) i = Inr (r, Some l') \<longrightarrow> length_invariant l') \<and>
      (stList_removeFirst (Some l) = Inr (r, Some l') \<longrightarrow> length_invariant l') \<and>
      (stList_pop (Some l) = Inr (r, Some l') \<longrightarrow> length_invariant l') \<and>
      (stList_removeItem (Some l) v = Inr (Some l') \<longrightarrow> length_invariant l') \<and>
      (stList_reverse (Some l) = Inr (Some l') \<longrightarrow> length_invariant l') \<and>
      (stList_sort qsort (Some l) cmpFn = Inr (Some l') \<longrightarrow> length_invariant l') \<and>
      (stList_shuffle st_randomInt (Some l) = Inr (Some l') \<longrightarrow> length_invariant l') \<and>
      (stList_setDestructor (Some l) d = Inr (Some l') \<longrightarrow> length_invariant l')) \<and>
   (stList_copy list d = Inr (Some l') \<longrightarrow> length_invariant l') \<and>
   (stList_filter list fn = Inr (Some l') \<longrightarrow> length_invariant l') \<and>
   (stList_filterToInclude list search = Inr (Some l') \<longrightarrow> length_invariant l') \<and>
   (stList_filterToExclude list search = Inr (Some l') \<longrightarrow> length_invariant l') \<and>
   (stList_join heap list = Inr (Some l') \<longrightarrow> length_invariant l')"
proof (intro conjI impI)
  assume "stList_construct = Inr (Some l')"
  then show "length_invariant l'"
    using construct3_inv [of 0 None "Some l'"] by (simp add: stList_construct_def)
next
  assume "stList_construct2 n = Inr (Some l')"
  then show "length_invariant l'"
    using construct3_inv [of n None "Some l'"] by (simp add: stList_construct2_def)
next
  assume "stList_construct3 n d = Inr (Some l')"
  then show "length_invariant l'"
    using construct3_inv [of n d "Some l'"] by simp
next
  assume "length_invariant l" "stList_set (Some l) i v = Inr (Some l')"
  then show "length_invariant l'"
    using set_sizes [of "Some l" i v "Some l'"] inv_ptr_sizes [of "Some l'" "Some l"] by simp
next
  assume "length_invariant l" "stList_append (Some l) v = Inr (Some l')"
  then show "length_invariant l'"
    using append_inv [of "Some l" v "Some l'"] by simp
next
  assume "length_invariant l" "stList_appendAll (Some l) add = Inr (Some l')"
  then show "length_invariant l'"
    using appendAll_inv [of "Some l" add "Some l'"] by simp
next
  assume "length_invariant l" "stList_remove (Some l) i = Inr (r, Some l')"
  then show "length_invariant l'"
    using remove_inv [of "Some l" i r "Some l'"] by simp
next
  assume "length_invariant l" "stList_removeFirst (Some l) = Inr (r, Some l')"
  then show "length_invariant l'"
    using remove_inv [of "Some l" 0 r "Some l'"] by (simp add: stList_removeFirst_def)
next
  assume "length_invariant l" "stList_pop (Some l) = Inr (r, Some l')"
  then show "length_invariant l'"
    using remove_inv [of "Some l" "stList_length (Some l) - 1" r "Some l'"]
    by (simp add: stList_pop_def)
next
  assume "length_invariant l" "stList_removeItem (Some l) v = Inr (Some l')"
  then show "length_invariant l'"
    using removeItem_loop_inv [of "Some l" v 0 "Some l'"] by (simp add: stList_removeItem_def)
next
  assume "length_invariant l" "stList_reverse (Some l) = Inr (Some l')"
  then show "length_invariant l'"
    using reverse_loop_sizes [of "Some l" 0 "stList_length (Some l)" "Some l'"]
      inv_ptr_sizes [of "Some l'" "Some l"]
    by (simp add: stList_reverse_def)
next
  assume "length_invariant l" "stList_sort qsort (Some l) cmpFn = Inr (Some l')"
  then show "length_invariant l'"
    by (auto simp: stList_sort_def length_invariant_def split: option.splits if_splits)
next
  assume "length_invariant l" "stList_shuffle st_randomInt (Some l) = Inr (Some l')"
  then show "length_invariant l'"
    using shuffle_loop_sizes [of st_randomInt "Some l" 0 "Some l'"]
      inv_ptr_sizes [of "Some l'" "Some l"]
    by (simp add: stList_shuffle_def)
next
  assume "length_invariant l" "stList_setDestructor (Some l) d = Inr (Some l')"
  then show "length_invariant l'"
    by (auto simp: stList_setDestructor_def length_invariant_def)
next
  assume "stList_copy list d = Inr (Some l')"
  then obtain list2 where "stList_construct3 0 d = Inr list2"
    "stList_appendAll list2 list = Inr (Some l')"
    by (auto simp: stList_copy_def bindF_def split: sum.splits)
  then show "length_invariant l'"
    using construct3_inv [of 0 d list2] appendAll_inv [of list2 list "Some l'"] by simp
next
  assume "stList_filter list fn = Inr (Some l')"
  then obtain list2 where "stList_construct3 0 None = Inr list2"
    "stList_filter_loop list fn list2 0 = Inr (Some l')"
    by (auto simp: stList_filter_def stList_construct_def bindF_def split: sum.splits)
  then show "length_invariant l'"
    using construct3_inv [of 0 None list2] filter_loop_inv [of list fn list2 0 "Some l'"]
    by simp
next
  assume "stList_filterToInclude list search = Inr (Some l')"
  then obtain list2 where "stList_construct3 0 None = Inr list2"
    "filterP_loop list search True list2 0 = Inr (Some l')"
    by (auto simp: stList_filterToInclude_def filterP_def stList_construct_def bindF_def
        split: sum.splits)
  then show "length_invariant l'"
    using construct3_inv [of 0 None list2]
      filterP_loop_inv [of list search True list2 0 "Some l'"]
    by simp
next
  assume "stList_filterToExclude list search = Inr (Some l')"
  then obtain list2 where "stList_construct3 0 None = Inr list2"
    "filterP_loop list search False list2 0 = Inr (Some l')"
    by (auto simp: stList_filterToExclude_def filterP_def stList_construct_def bindF_def
        split: sum.splits)
  then show "length_invariant l'"
    using construct3_inv [of 0 None list2]
      filterP_loop_inv [of list search False list2 0 "Some l'"]
    by simp
next
  assume "stList_join heap list = Inr (Some l')"
  then obtain joined where "stList_construct3 0 None = Inr joined"
    "stList_join_loop heap list joined 0 = Inr (Some l')"
    by (auto simp: stList_join_def stList_construct_def bindF_def split: sum.splits)
  then show "length_invariant l'"
    using construct3_inv [of 0 None joined] join_loop_inv [of heap list joined 0 "Some l'"]
    by simp
qed

theorem C8_length_invariant_witness:
  "length_invariant abc_list \<and>
   (\<exists>l'. stList_construct = Inr (Some l') \<and> length_invariant l') \<and>
   (\<exists>l'. stList_construct2 3 = Inr (Some l') \<and> length_invariant l') \<and>
   (\<exists>l'. stList_construct3 3 (Some 7) = Inr (Some l') \<and> length_invariant l') \<and>
   (\<exists>l'. stList_set (Some abc_list) 1 (Addr 40) = Inr (Some l') \<and> length_invariant l') \<and>
   (\<exists>l'. stList_append (Some abc_list) (Addr 40) = Inr (Some l') \<and> length_invariant l') \<and>
   (\<exists>l'. stList_appendAll (Some abc_list) (Some full_one) = Inr (Some l') \<and> length_invariant l') \<and>
   (\<exists>l'. stList_remove (Some abc_list) 1 = Inr (Addr 20, Some l') \<and> length_invariant l') \<and>
   (\<exists>l'. stList_removeFirst (Some abc_list) = Inr (Addr 10, Some l') \<and> length_invariant l') \<and>
   (\<exists>l'. stList_pop (Some abc_list) = Inr (Addr 30, Some l') \<and> length_invariant l') \<and>
   (\<exists>l'. stList_removeItem (Some abc_list) (Addr 20) = Inr (Some l') \<and> length_invariant l') \<and>
   (\<exists>l'. stList_reverse (Some abc_list) = Inr (Some l') \<and> length_invariant l') \<and>
   (\<exists>l'. stList_sort keep_order (Some abc_list) no_order = Inr (Some l') \<and> length_invariant l') \<and>
   (\<exists>l'. stList_shuffle pick_first (Some abc_list) = Inr (Some l') \<and> length_invariant l') \<and>
   (\<exists>l'. stList_setDestructor (Some abc_list) (Some 7) = Inr (Some l') \<and> length_invariant l') \<and>
   (\<exists>l'. stList_copy (Some abc_list) None = Inr (Some l') \<and> length_invariant l') \<and>
   (\<exists>l'. stList_filter (Some null_inside) not_null = Inr (Some l') \<and> length_invariant l') \<and>
   (\<exists>l'. stList_filterToInclude (Some abc_list) search_10_30 = Inr (Some l') \<and> length_invariant l') \<and>
   (\<exists>l'. stList_filterToExclude (Some abc_list) search_10_30 = Inr (Some l') \<and> length_invariant l') \<and>
   (\<exists>l'. stList_join heap_of_abc (Some list_of_lists) = Inr (Some l') \<and> length_invariant l')"
proof -
  have h: "length_invariant abc_list"
    by (simp add: length_invariant_def abc_list_def word_sle_eq)
  from runs_construct obtain l' where e: "stList_construct = Inr (Some l')"
    by blast
  have "length_invariant l'"
    using C8_length_invariant [where l' = l'] e h by blast
  with e have w0: "\<exists>l'. stList_construct = Inr (Some l') \<and> length_invariant l'"
    by blast
  from runs_construct2 obtain l' where e: "stList_construct2 3 = Inr (Some l')"
    by blast
  have "length_invariant l'"
    using C8_length_invariant [where l' = l' and n = 3] e h by blast
  with e have w1: "\<exists>l'. stList_construct2 3 = Inr (Some l') \<and> length_invariant l'"
    by blast
  from runs_construct3 obtain l' where e: "stList_construct3 3 (Some 7) = Inr (Some l')"
    by blast
  have "length_invariant l'"
    using C8_length_invariant [where l' = l' and n = 3 and d = "Some 7"] e h by blast
  with e have w2: "\<exists>l'. stList_construct3 3 (Some 7) = Inr (Some l') \<and> length_invariant l'"
    by blast
  from runs_set obtain l' where e: "stList_set (Some abc_list) 1 (Addr 40) = Inr (Some l')"
    by blast
  have "length_invariant l'"
    using C8_length_invariant [where l' = l' and l = abc_list and i = 1 and v = "Addr 40"] e h by blast
  with e have w3: "\<exists>l'. stList_set (Some abc_list) 1 (Addr 40) = Inr (Some l') \<and> length_invariant l'"
    by blast
  from runs_append obtain l' where e: "stList_append (Some abc_list) (Addr 40) = Inr (Some l')"
    by blast
  have "length_invariant l'"
    using C8_length_invariant [where l' = l' and l = abc_list and v = "Addr 40"] e h by blast
  with e have w4: "\<exists>l'. stList_append (Some abc_list) (Addr 40) = Inr (Some l') \<and> length_invariant l'"
    by blast
  from runs_appendAll obtain l' where e: "stList_appendAll (Some abc_list) (Some full_one) = Inr (Some l')"
    by blast
  have "length_invariant l'"
    using C8_length_invariant [where l' = l' and l = abc_list and add = "Some full_one"] e h by blast
  with e have w5: "\<exists>l'. stList_appendAll (Some abc_list) (Some full_one) = Inr (Some l') \<and> length_invariant l'"
    by blast
  from runs_remove obtain l' where e: "stList_remove (Some abc_list) 1 = Inr (Addr 20, Some l')"
    by blast
  have "length_invariant l'"
    using C8_length_invariant [where l' = l' and l = abc_list and i = 1 and r = "Addr 20"] e h by blast
  with e have w6: "\<exists>l'. stList_remove (Some abc_list) 1 = Inr (Addr 20, Some l') \<and> length_invariant l'"
    by blast
  from runs_removeFirst obtain l' where e: "stList_removeFirst (Some abc_list) = Inr (Addr 10, Some l')"
    by blast
  have "length_invariant l'"
    using C8_length_invariant [where l' = l' and l = abc_list and r = "Addr 10"] e h by blast
  with e have w7: "\<exists>l'. stList_removeFirst (Some abc_list) = Inr (Addr 10, Some l') \<and> length_invariant l'"
    by blast
  from runs_pop obtain l' where e: "stList_pop (Some abc_list) = Inr (Addr 30, Some l')"
    by blast
  have "length_invariant l'"
    using C8_length_invariant [where l' = l' and l = abc_list and r = "Addr 30"] e h by blast
  with e have w8: "\<exists>l'. stList_pop (Some abc_list) = Inr (Addr 30, Some l') \<and> length_invariant l'"
    by blast
  from runs_removeItem obtain l' where e: "stList_removeItem (Some abc_list) (Addr 20) = Inr (Some l')"
    by blast
  have "length_invariant l'"
    using C8_length_invariant [where l' = l' and l = abc_list and v = "Addr 20"] e h by blast
  with e have w9: "\<exists>l'. stList_removeItem (Some abc_list) (Addr 20) = Inr (Some l') \<and> length_invariant l'"
    by blast
  from runs_reverse obtain l' where e: "stList_reverse (Some abc_list) = Inr (Some l')"
    by blast
  have "length_invariant l'"
    using C8_length_invariant [where l' = l' and l = abc_list] e h by blast
  with e have w10: "\<exists>l'. stList_reverse (Some abc_list) = Inr (Some l') \<and> length_invariant l'"
    by blast
  from runs_sort obtain l' where e: "stList_sort keep_order (Some abc_list) no_order = Inr (Some l')"
    by blast
  have "length_invariant l'"
    using C8_length_invariant [where l' = l' and l = abc_list and qsort = keep_order and cmpFn = no_order] e h by blast
  with e have w11: "\<exists>l'. stList_sort keep_order (Some abc_list) no_order = Inr (Some l') \<and> length_invariant l'"
    by blast
  from runs_shuffle obtain l' where e: "stList_shuffle pick_first (Some abc_list) = Inr (Some l')"
    by blast
  have "length_invariant l'"
    using C8_length_invariant [where l' = l' and l = abc_list and st_randomInt = pick_first] e h by blast
  with e have w12: "\<exists>l'. stList_shuffle pick_first (Some abc_list) = Inr (Some l') \<and> length_invariant l'"
    by blast
  from runs_setDestructor obtain l' where e: "stList_setDestructor (Some abc_list) (Some 7) = Inr (Some l')"
    by blast
  have "length_invariant l'"
    using C8_length_invariant [where l' = l' and l = abc_list and d = "Some 7"] e h by blast
  with e have w13: "\<exists>l'. stList_setDestructor (Some abc_list) (Some 7) = Inr (Some l') \<and> length_invariant l'"
    by blast
  from runs_copy obtain l' where e: "stList_copy (Some abc_list) None = Inr (Some l')"
    by blast
  have "length_invariant l'"
    using C8_length_invariant [where l' = l' and list = "Some abc_list" and d = None] e h by blast
  with e have w14: "\<exists>l'. stList_copy (Some abc_list) None = Inr (Some l') \<and> length_invariant l'"
    by blast
  from runs_filter obtain l' where e: "stList_filter (Some null_inside) not_null = Inr (Some l')"
    by blast
  have "length_invariant l'"
    using C8_length_invariant [where l' = l' and list = "Some null_inside" and fn = not_null] e h by blast
  with e have w15: "\<exists>l'. stList_filter (Some null_inside) not_null = Inr (Some l') \<and> length_invariant l'"
    by blast
  from runs_filterToInclude obtain l' where e: "stList_filterToInclude (Some abc_list) search_10_30 = Inr (Some l')"
    by blast
  have "length_invariant l'"
    using C8_length_invariant [where l' = l' and list = "Some abc_list" and search = search_10_30] e h by blast
  with e have w16: "\<exists>l'. stList_filterToInclude (Some abc_list) search_10_30 = Inr (Some l') \<and> length_invariant l'"
    by blast
  from runs_filterToExclude obtain l' where e: "stList_filterToExclude (Some abc_list) search_10_30 = Inr (Some l')"
    by blast
  have "length_invariant l'"
    using C8_length_invariant [where l' = l' and list = "Some abc_list" and search = search_10_30] e h by blast
  with e have w17: "\<exists>l'. stList_filterToExclude (Some abc_list) search_10_30 = Inr (Some l') \<and> length_invariant l'"
    by blast
  from runs_join obtain l' where e: "stList_join heap_of_abc (Some list_of_lists) = Inr (Some l')"
    by blast
  have "length_invariant l'"
    using C8_length_invariant [where l' = l' and list = "Some list_of_lists" and heap = heap_of_abc] e h by blast
  with e have w18: "\<exists>l'. stList_join heap_of_abc (Some list_of_lists) = Inr (Some l') \<and> length_invariant l'"
    by blast
  show ?thesis
    using h w0 w1 w2 w3 w4 w5 w6 w7 w8 w9 w10 w11 w12 w13 w14 w15 w16 w17 w18 by blast
qed

section \<open>Further properties\<close>

declare stList_contains_loop.simps [simp del]

lemma valid_set:
  assumes "valid_list l" "0 \<le>s i" "i <s length_f l"
  shows "\<exists>l'. stList_set (Some l) i v = Inr (Some l') \<and>
           elems l' = (elems l)[nat (sint i) := v] \<and>
           length_f l' = length_f l \<and> maxLength l' = maxLength l \<and>
           destructElement l' = destructElement l \<and> valid_list l'"
proof -
  from assms(1) obtain t where l: "l = rep (elems l) t (maxLength l) (destructElement l)"
    and f: "fits (elems l) t (maxLength l)"
    by (rule valid_list_rep)
  let ?xs = "elems l" and ?c = "maxLength l" and ?d = "destructElement l"
  let ?k = "nat (sint i)"
  have k: "?k < length ?xs"
    by (rule valid_index(1) [OF assms])
  have i: "of_nat ?k = i"
    using assms(2) by (simp add: word_sle_eq)
  let ?l' = "rep (?xs[?k := v]) t ?c ?d"
  have f': "fits (?xs[?k := v]) t ?c"
    using f by simp
  have "stList_set (Some (rep ?xs t ?c ?d)) (of_nat ?k) v = Inr (Some ?l')"
    by (rule set_rep [OF f k])
  then have 1: "stList_set (Some l) i v = Inr (Some ?l')"
    using l i by simp
  have 2: "elems ?l' = ?xs[?k := v]"
    by (rule elems_rep [OF f'])
  have 3: "length_f ?l' = length_f l"
    using l rep_simps(2) [of ?xs t ?c ?d] by simp
  have 4: "valid_list ?l'"
    using f' by (rule valid_rep)
  show ?thesis
    using 1 2 3 4 by (intro exI [of _ ?l']) simp
qed

text \<open>
  Property X1: \<^verbatim>\<open>stList_get\<close> and \<^verbatim>\<open>stList_set\<close>. On a well-formed list and an index \<open>0 \<le> i < length\<close>,
  \<^verbatim>\<open>stList_get\<close> returns the element at \<open>i\<close> and \<^verbatim>\<open>stList_set\<close> replaces it, leaving the other
  elements, the length, the capacity and the destructor (which it does not call). With any
  other index, on any list pointer, both fail an assertion.
\<close>

theorem X1_get_set:
  "(valid_list l \<and> 0 \<le>s i \<and> i <s length_f l \<longrightarrow>
      stList_get (Some l) i = Inr (elems l ! nat (sint i)) \<and>
      (\<exists>l'. stList_set (Some l) i v = Inr (Some l') \<and>
            elems l' = (elems l)[nat (sint i) := v] \<and>
            length_f l' = length_f l \<and> maxLength l' = maxLength l \<and>
            destructElement l' = destructElement l \<and> valid_list l')) \<and>
   (\<not> (0 \<le>s i \<and> i <s stList_length list) \<longrightarrow>
      stList_get list i = Inl AssertionFailure \<and> stList_set list i v = Inl AssertionFailure)"
proof (intro conjI impI)
  assume a: "valid_list l \<and> 0 \<le>s i \<and> i <s length_f l"
  then show "stList_get (Some l) i = Inr (elems l ! nat (sint i))"
    by (intro valid_index(3)) simp_all
  from a show "\<exists>l'. stList_set (Some l) i v = Inr (Some l') \<and>
            elems l' = (elems l)[nat (sint i) := v] \<and>
            length_f l' = length_f l \<and> maxLength l' = maxLength l \<and>
            destructElement l' = destructElement l \<and> valid_list l'"
    by (intro valid_set) simp_all
next
  assume "\<not> (0 \<le>s i \<and> i <s stList_length list)"
  then show "stList_get list i = Inl AssertionFailure"
    by (auto simp: stList_get_def)
next
  assume "\<not> (0 \<le>s i \<and> i <s stList_length list)"
  then show "stList_set list i v = Inl AssertionFailure"
    by (auto simp: stList_set_def)
qed

theorem X1_get_set_witness:
  "valid_list abc_list \<and> (0 :: int32) \<le>s 1 \<and> 1 <s length_f abc_list \<and>
   stList_get (Some abc_list) 1 = Inr (Addr 20) \<and>
   (\<exists>l'. stList_set (Some abc_list) 1 (Addr 40) = Inr (Some l') \<and>
         elems l' = [Addr 10, Addr 40, Addr 30]) \<and>
   \<not> ((0 :: int32) \<le>s 3 \<and> 3 <s stList_length (Some abc_list)) \<and>
   stList_get (Some abc_list) 3 = Inl AssertionFailure \<and>
   stList_set (Some abc_list) 3 (Addr 40) = Inl AssertionFailure"
proof -
  note f = abc_list_facts word_sle_eq word_sless_alt stList_length_def
  have h: "valid_list abc_list \<and> (0 :: int32) \<le>s 1 \<and> 1 <s length_f abc_list"
    by (simp add: f)
  have h': "\<not> ((0 :: int32) \<le>s 3 \<and> 3 <s stList_length (Some abc_list))"
    by (simp add: f)
  from X1_get_set [of abc_list 1 "Addr 40" "Some abc_list"] h
  have t: "stList_get (Some abc_list) 1 = Inr (elems abc_list ! nat (sint (1 :: int32)))"
    "\<exists>l'. stList_set (Some abc_list) 1 (Addr 40) = Inr (Some l') \<and>
          elems l' = (elems abc_list)[nat (sint (1 :: int32)) := Addr 40]"
    by blast+
  have 1: "stList_get (Some abc_list) 1 = Inr (Addr 20)"
    using t(1) by (simp add: f)
  have 2: "\<exists>l'. stList_set (Some abc_list) 1 (Addr 40) = Inr (Some l') \<and>
         elems l' = [Addr 10, Addr 40, Addr 30]"
    using t(2) by (simp add: f)
  from X1_get_set [of abc_list 3 "Addr 40" "Some abc_list"] h'
  have 3: "stList_get (Some abc_list) 3 = Inl AssertionFailure"
    "stList_set (Some abc_list) 3 (Addr 40) = Inl AssertionFailure"
    by blast+
  show ?thesis
    using h h' 1 2 3 by blast
qed

text \<open>
  Property X2: construction. \<^verbatim>\<open>stList_construct3\<close> fails its assertion on a negative length; otherwise
  it returns a well-formed list with \<open>length = maxLength\<close> the length asked for, every
  element \<^verbatim>\<open>NULL\<close>, and the destructor given. \<^verbatim>\<open>stList_construct2\<close> is the same without a
  destructor, \<^verbatim>\<open>stList_construct\<close> with length 0 as well.
\<close>

theorem X2_construct:
  "(\<not> 0 \<le>s n \<longrightarrow> stList_construct3 n d = Inl AssertionFailure) \<and>
   (0 \<le>s n \<longrightarrow>
      (\<exists>l. stList_construct3 n d = Inr (Some l) \<and> valid_list l \<and>
           length_f l = n \<and> maxLength l = n \<and> destructElement l = d \<and>
           elems l = replicate (nat (sint n)) NULL)) \<and>
   stList_construct2 n = stList_construct3 n None \<and>
   stList_construct = stList_construct3 0 None"
proof (intro conjI impI)
  assume "\<not> 0 \<le>s n"
  then show "stList_construct3 n d = Inl AssertionFailure"
    by (simp add: stList_construct3_def)
next
  assume n: "0 \<le>s n"
  let ?l = "\<lparr>list_f = Some (replicate (nat (sint n)) (Cell NULL)), length_f = n,
             maxLength = n, destructElement = d\<rparr>"
  have 1: "stList_construct3 n d = Inr (Some ?l)"
    using n by (simp add: stList_construct3_def st_calloc_def)
  have 2: "valid_list ?l"
    using n by (simp add: valid_list_def cells_def)
  have 3: "elems ?l = replicate (nat (sint n)) NULL"
    by (simp add: elems_def cells_def)
  show "\<exists>l. stList_construct3 n d = Inr (Some l) \<and> valid_list l \<and>
           length_f l = n \<and> maxLength l = n \<and> destructElement l = d \<and>
           elems l = replicate (nat (sint n)) NULL"
    using 1 2 3 by (intro exI [of _ ?l]) simp
next
  show "stList_construct2 n = stList_construct3 n None"
    by (simp add: stList_construct2_def)
next
  show "stList_construct = stList_construct3 0 None"
    by (simp add: stList_construct_def)
qed

theorem X2_construct_witness:
  "\<not> (0 :: int32) \<le>s - 1 \<and> stList_construct3 (- 1) None = Inl AssertionFailure \<and>
   (0 :: int32) \<le>s 3 \<and>
   (\<exists>l. stList_construct3 3 None = Inr (Some l) \<and> valid_list l \<and> length_f l = 3 \<and>
        elems l = [NULL, NULL, NULL])"
proof -
  have h: "\<not> (0 :: int32) \<le>s - 1" "(0 :: int32) \<le>s 3"
    by (simp_all add: word_sle_eq)
  from X2_construct [of "- 1" None] h(1)
  have 1: "stList_construct3 (- 1) None = Inl AssertionFailure"
    by blast
  from X2_construct [of 3 None] h(2)
  have "\<exists>l. stList_construct3 3 None = Inr (Some l) \<and> valid_list l \<and> length_f l = 3 \<and>
        elems l = replicate (nat (sint (3 :: int32))) NULL"
    by blast
  then have 2: "\<exists>l. stList_construct3 3 None = Inr (Some l) \<and> valid_list l \<and> length_f l = 3 \<and>
        elems l = [NULL, NULL, NULL]"
    by (simp add: numeral_3_eq_3)
  show ?thesis
    using h 1 2 by blast
qed

lemma append_valid:
  assumes "valid_list l" "stList_append (Some l) v = Inr (Some l')"
  shows "valid_list l' \<and> elems l' = elems l @ [v] \<and> destructElement l' = destructElement l"
proof -
  from assms(1) obtain t where l: "l = rep (elems l) t (maxLength l) (destructElement l)"
    and f: "fits (elems l) t (maxLength l)"
    by (rule valid_list_rep)
  let ?xs = "elems l" and ?c = "maxLength l" and ?d = "destructElement l"
  have a: "stList_append (Some (rep ?xs t ?c ?d)) v = Inr (Some l')"
    using assms(2) l by simp
  show ?thesis
  proof (cases t)
    case (Cons c0 t')
    have f0: "fits ?xs (c0 # t') ?c" using f Cons by simp
    have "l' = rep (?xs @ [v]) t' ?c ?d"
      using a append_rep_room [OF f0, of ?d v] Cons by simp
    then show ?thesis
      using valid_rep [OF fits_room [OF f0, of v], of ?d]
        elems_rep [OF fits_room [OF f0, of v], of ?d] by simp
  next
    case Nil
    have f0: "fits ?xs [] ?c" using f Nil by simp
    show ?thesis
    proof (cases "2 * sint ?c + 5 < 2 ^ 31")
      case True
      have "l' = rep (?xs @ [v]) (replicate (length ?xs + 4) Indeterminate) (?c * 2 + 5) ?d"
        using a append_rep_full [OF f0 True, of ?d v] Nil by simp
      then show ?thesis
        using valid_rep [OF fits_grow [OF f0 True, of v], of ?d]
          elems_rep [OF fits_grow [OF f0 True, of v], of ?d] by simp
    next
      case False
      then have "stList_append (Some (rep ?xs [] ?c ?d)) v = Inl AssertionFailure"
        by (intro append_rep_overflow [OF f0]) simp
      with a Nil show ?thesis by simp
    qed
  qed
qed

lemma peek_valid:
  assumes "valid_list l" "elems l \<noteq> []"
  shows "stList_peek (Some l) = Inr (last (elems l))"
proof -
  let ?i = "length_f l - 1"
  have n: "sint (length_f l) = int (length (elems l))"
    by (rule valid_length [OF assms(1)])
  then have pos: "0 <s length_f l"
    using assms(2) by (simp add: word_sless_alt)
  have s: "sint ?i = sint (length_f l) - 1"
    using pos by (rule sint_pred)
  have c: "0 \<le>s ?i" "?i <s length_f l"
    using s n assms(2) by (simp_all add: word_sle_eq word_sless_alt)
  have "stList_get (Some l) ?i = Inr (elems l ! nat (sint ?i))"
    by (rule valid_index(3) [OF assms(1) c])
  moreover have "nat (sint ?i) = length (elems l) - 1"
    using s n by simp
  ultimately show ?thesis
    using pos assms(2) by (simp add: stList_peek_def stList_length_def last_conv_nth)
qed

lemma pop_valid:
  assumes "valid_list l" "elems l \<noteq> []"
  shows "\<exists>l'. stList_pop (Some l) = Inr (last (elems l), Some l') \<and>
           elems l' = butlast (elems l) \<and>
           sint (length_f l') = sint (length_f l) - 1 \<and> valid_list l'"
proof -
  let ?i = "length_f l - 1" and ?xs = "elems l"
  have n: "sint (length_f l) = int (length ?xs)"
    by (rule valid_length [OF assms(1)])
  then have pos: "0 <s length_f l"
    using assms(2) by (simp add: word_sless_alt)
  have s: "sint ?i = sint (length_f l) - 1"
    using pos by (rule sint_pred)
  have c: "0 \<le>s ?i" "?i <s length_f l"
    using s n assms(2) by (simp_all add: word_sle_eq word_sless_alt)
  have k: "nat (sint ?i) = length ?xs - 1"
    using s n by simp
  from remove_valid [OF assms(1) c] obtain l' where
    r: "stList_remove (Some l) ?i = Inr (?xs ! nat (sint ?i), Some l')"
    and e: "elems l' = take (nat (sint ?i)) ?xs @ drop (Suc (nat (sint ?i))) ?xs"
    and m: "sint (length_f l') = sint (length_f l) - 1"
    and v: "valid_list l'"
    by blast
  have 1: "stList_pop (Some l) = Inr (last ?xs, Some l')"
    using r assms(2) by (simp add: stList_pop_def stList_length_def k last_conv_nth)
  have 2: "elems l' = butlast ?xs"
    using e assms(2) by (simp add: k butlast_conv_take)
  show ?thesis
    using 1 2 m v by blast
qed

text \<open>
  Property X3: append, then peek and pop. When \<^verbatim>\<open>stList_append\<close> returns on a well-formed list,
  \<^verbatim>\<open>stList_peek\<close> on the result returns the value appended, and \<^verbatim>\<open>stList_pop\<close> returns that
  value and leaves the elements the list had before the append, the length one less.
\<close>

theorem X3_append_peek_pop:
  "valid_list l \<and> stList_append (Some l) v = Inr (Some l') \<longrightarrow>
     stList_peek (Some l') = Inr v \<and>
     (\<exists>l''. stList_pop (Some l') = Inr (v, Some l'') \<and> elems l'' = elems l \<and>
            sint (length_f l'') = sint (length_f l') - 1 \<and> valid_list l'')"
proof (intro impI)
  assume a: "valid_list l \<and> stList_append (Some l) v = Inr (Some l')"
  then have v': "valid_list l'" and e: "elems l' = elems l @ [v]"
    using append_valid [of l v l'] by simp_all
  have ne: "elems l' \<noteq> []" using e by simp
  have 1: "stList_peek (Some l') = Inr v"
    using peek_valid [OF v' ne] e by simp
  have 2: "\<exists>l''. stList_pop (Some l') = Inr (v, Some l'') \<and> elems l'' = elems l \<and>
            sint (length_f l'') = sint (length_f l') - 1 \<and> valid_list l''"
    using pop_valid [OF v' ne] e by simp
  show "stList_peek (Some l') = Inr v \<and>
     (\<exists>l''. stList_pop (Some l') = Inr (v, Some l'') \<and> elems l'' = elems l \<and>
            sint (length_f l'') = sint (length_f l') - 1 \<and> valid_list l'')"
    using 1 2 by blast
qed

theorem X3_append_peek_pop_witness:
  "valid_list abc_list \<and>
   (\<exists>l'. stList_append (Some abc_list) (Addr 40) = Inr (Some l') \<and>
         stList_peek (Some l') = Inr (Addr 40) \<and>
         (\<exists>l''. stList_pop (Some l') = Inr (Addr 40, Some l'') \<and>
                elems l'' = [Addr 10, Addr 20, Addr 30]))"
proof -
  have h: "valid_list abc_list"
    by (simp add: abc_list_facts)
  from runs_append obtain l' where e: "stList_append (Some abc_list) (Addr 40) = Inr (Some l')"
    by blast
  from X3_append_peek_pop [of abc_list "Addr 40" l'] h e
  have "stList_peek (Some l') = Inr (Addr 40) \<and>
     (\<exists>l''. stList_pop (Some l') = Inr (Addr 40, Some l'') \<and> elems l'' = elems abc_list)"
    by blast
  then show ?thesis
    using h e by (auto simp: abc_list_facts)
qed

lemma contains_loop_rep:
  assumes "fits xs t c"
  shows "k \<le> length xs \<Longrightarrow>
    stList_contains_loop (Some (rep xs t c d)) v (of_nat k) =
    Inr (if v \<in> set (drop k xs) then 1 else 0)"
proof (induction "length xs - k" arbitrary: k)
  case 0
  then have "k = length xs" by simp
  then show ?case
    by (subst stList_contains_loop.simps) (simp add: word_sless_alt)
next
  case (Suc m)
  then have k: "k < length xs" by simp
  have n: "length xs < 2 ^ 31" "k < 2 ^ 31"
    using fits_bound [OF assms] k by simp_all
  have d: "drop k xs = xs ! k # drop (Suc k) xs"
    using k by (simp add: Cons_nth_drop_Suc)
  have c: "of_nat k <s (of_nat (length xs) :: int32)"
    using k n by (simp add: sless_of_nat32)
  have g: "stList_get (Some (rep xs t c d)) (of_nat k) = Inr (xs ! k)"
    by (rule get_rep [OF assms k])
  have ih: "stList_contains_loop (Some (rep xs t c d)) v (of_nat k + 1) =
      Inr (if v \<in> set (drop (Suc k) xs) then 1 else 0)"
    using Suc.hyps(1) [of "Suc k"] Suc.hyps(2) k
    by (simp only: of_nat_Suc_int32)
  show ?case
    by (subst stList_contains_loop.simps) (auto simp: c g ih d simp del: of_nat_Suc)
qed

text \<open>
  Property X4. \<^verbatim>\<open>stList_contains\<close> on a well-formed list returns 1 when some element is the value, by
  identity, and 0 otherwise.
\<close>

theorem X4_contains:
  "valid_list l \<longrightarrow> stList_contains (Some l) v = Inr (if v \<in> set (elems l) then 1 else 0)"
proof
  assume "valid_list l"
  then obtain t where l: "l = rep (elems l) t (maxLength l) (destructElement l)"
    and f: "fits (elems l) t (maxLength l)"
    by (rule valid_list_rep)
  have "stList_contains (Some (rep (elems l) t (maxLength l) (destructElement l))) v =
        Inr (if v \<in> set (elems l) then 1 else 0)"
    using contains_loop_rep [OF f, of 0 "destructElement l" v]
    by (simp add: stList_contains_def)
  then show "stList_contains (Some l) v = Inr (if v \<in> set (elems l) then 1 else 0)"
    using l by simp
qed

theorem X4_contains_witness:
  "valid_list abc_list \<and> stList_contains (Some abc_list) (Addr 20) = Inr 1 \<and>
   stList_contains (Some abc_list) (Addr 40) = Inr 0"
  using X4_contains [of abc_list "Addr 20"] X4_contains [of abc_list "Addr 40"]
  by (simp add: abc_list_facts)

lemma appendAll_loop_rep:
  assumes "fits xs t c"
  shows "k \<le> length xs \<Longrightarrow>
    stList_appendAll_loop to (Some (rep xs t c d)) (of_nat k) = append_seq to (drop k xs)"
proof (induction "length xs - k" arbitrary: k to)
  case 0
  then have "k = length xs" by simp
  then show ?case
    by (subst stList_appendAll_loop.simps) (simp add: word_sless_alt)
next
  case (Suc m)
  then have k: "k < length xs" by simp
  have n: "length xs < 2 ^ 31" "k < 2 ^ 31"
    using fits_bound [OF assms] k by simp_all
  have d: "drop k xs = xs ! k # drop (Suc k) xs"
    using k by (simp add: Cons_nth_drop_Suc)
  have c: "of_nat k <s (of_nat (length xs) :: int32)"
    using k n by (simp add: sless_of_nat32)
  have g: "stList_get (Some (rep xs t c d)) (of_nat k) = Inr (xs ! k)"
    by (rule get_rep [OF assms k])
  have ih: "\<And>to. stList_appendAll_loop to (Some (rep xs t c d)) (of_nat k + 1) =
      append_seq to (drop (Suc k) xs)"
    using Suc.hyps(1) [of "Suc k"] Suc.hyps(2) k
    by (simp only: of_nat_Suc_int32)
  show ?case
    by (subst stList_appendAll_loop.simps) (simp add: c g ih d del: of_nat_Suc)
qed

lemma filter_loop_rep:
  assumes "fits xs t c"
  shows "k \<le> length xs \<Longrightarrow>
    stList_filter_loop (Some (rep xs t c d)) fn list2 (of_nat k) =
    append_seq list2 (filter fn (drop k xs))"
proof (induction "length xs - k" arbitrary: k list2)
  case 0
  then have "k = length xs" by simp
  then show ?case
    by (subst stList_filter_loop.simps) (simp add: word_sless_alt)
next
  case (Suc m)
  then have k: "k < length xs" by simp
  have n: "length xs < 2 ^ 31" "k < 2 ^ 31"
    using fits_bound [OF assms] k by simp_all
  have d: "drop k xs = xs ! k # drop (Suc k) xs"
    using k by (simp add: Cons_nth_drop_Suc)
  have c: "of_nat k <s (of_nat (length xs) :: int32)"
    using k n by (simp add: sless_of_nat32)
  have g: "stList_get (Some (rep xs t c d)) (of_nat k) = Inr (xs ! k)"
    by (rule get_rep [OF assms k])
  have ih: "\<And>list2. stList_filter_loop (Some (rep xs t c d)) fn list2 (of_nat k + 1) =
      append_seq list2 (filter fn (drop (Suc k) xs))"
    using Suc.hyps(1) [of "Suc k"] Suc.hyps(2) k
    by (simp only: of_nat_Suc_int32)
  show ?case
    by (subst stList_filter_loop.simps) (simp add: c g ih d del: of_nat_Suc)
qed

lemma construct3_append_seq:
  assumes "length vs \<le> 1342177275"
  shows "\<exists>l. bindF (stList_construct3 0 d) (\<lambda>list. append_seq list vs) = Inr (Some l) \<and>
           valid_list l \<and> elems l = vs \<and> destructElement l = d"
proof -
  from append_seq_grown [OF empty_list_rep(2) grown_0, of vs d] assms
  obtain t' c' where 1: "append_seq (Some (rep [] [] 0 d)) vs = Inr (Some (rep vs t' c' d))"
    and f: "fits vs t' c'"
    by auto
  have "stList_construct3 0 d = Inr (Some (rep [] [] 0 d))"
    by (simp add: stList_construct3_def st_calloc_def rep_def word_sle_eq)
  then show ?thesis
    using 1 valid_rep [OF f, of d] elems_rep [OF f, of d] by simp
qed

text \<open>
  Property X5. \<^verbatim>\<open>stList_copy\<close> of a well-formed list of at most 1342177275 elements returns a well-formed
  list with the same elements in the same order and the destructor given. \<^verbatim>\<open>stList_filter\<close>
  returns the elements that satisfy the predicate, in the order of the source and without
  destructor, when there are at most 1342177275 of them.
\<close>

theorem X5_copy_filter:
  "(valid_list l \<and> length (elems l) \<le> 1342177275 \<longrightarrow>
      (\<exists>l'. stList_copy (Some l) d = Inr (Some l') \<and> valid_list l' \<and>
            elems l' = elems l \<and> destructElement l' = d)) \<and>
   (valid_list l \<and> length (filter fn (elems l)) \<le> 1342177275 \<longrightarrow>
      (\<exists>l'. stList_filter (Some l) fn = Inr (Some l') \<and> valid_list l' \<and>
            elems l' = filter fn (elems l) \<and> destructElement l' = None))"
proof (intro conjI impI)
  assume a: "valid_list l \<and> length (elems l) \<le> 1342177275"
  then obtain t where l: "l = rep (elems l) t (maxLength l) (destructElement l)"
    and f: "fits (elems l) t (maxLength l)"
    using valid_list_rep [of l] by blast
  have "\<And>to. stList_appendAll to (Some l) = append_seq to (elems l)"
    using appendAll_loop_rep [OF f, of 0 _ "destructElement l"] l
    by (simp add: stList_appendAll_def)
  then have "stList_copy (Some l) d =
      bindF (stList_construct3 0 d) (\<lambda>list. append_seq list (elems l))"
    by (simp add: stList_copy_def)
  then show "\<exists>l'. stList_copy (Some l) d = Inr (Some l') \<and> valid_list l' \<and>
            elems l' = elems l \<and> destructElement l' = d"
    using construct3_append_seq [of "elems l" d] a by simp
next
  assume a: "valid_list l \<and> length (filter fn (elems l)) \<le> 1342177275"
  then obtain t where l: "l = rep (elems l) t (maxLength l) (destructElement l)"
    and f: "fits (elems l) t (maxLength l)"
    using valid_list_rep [of l] by blast
  have "\<And>list2. stList_filter_loop (Some l) fn list2 0 = append_seq list2 (filter fn (elems l))"
    using filter_loop_rep [OF f, of 0 "destructElement l" fn] l by simp
  then have "stList_filter (Some l) fn =
      bindF (stList_construct3 0 None) (\<lambda>list. append_seq list (filter fn (elems l)))"
    by (simp add: stList_filter_def stList_construct_def)
  then show "\<exists>l'. stList_filter (Some l) fn = Inr (Some l') \<and> valid_list l' \<and>
            elems l' = filter fn (elems l) \<and> destructElement l' = None"
    using construct3_append_seq [of "filter fn (elems l)" None] a by simp
qed

theorem X5_copy_filter_witness:
  "valid_list null_inside \<and> length (elems null_inside) \<le> 1342177275 \<and>
   length (filter not_null (elems null_inside)) \<le> 1342177275 \<and>
   (\<exists>l'. stList_copy (Some null_inside) (Some 7) = Inr (Some l') \<and>
         elems l' = [Addr 10, NULL, Addr 30] \<and> destructElement l' = Some 7) \<and>
   (\<exists>l'. stList_filter (Some null_inside) not_null = Inr (Some l') \<and>
         elems l' = [Addr 10, Addr 30])"
proof -
  note f = null_inside_facts not_null_def
  have h: "valid_list null_inside \<and> length (elems null_inside) \<le> 1342177275"
    "valid_list null_inside \<and> length (filter not_null (elems null_inside)) \<le> 1342177275"
    by (simp_all add: f)
  from X5_copy_filter [of null_inside "Some 7" not_null] h
  have t: "\<exists>l'. stList_copy (Some null_inside) (Some 7) = Inr (Some l') \<and>
            elems l' = elems null_inside \<and> destructElement l' = Some 7"
    "\<exists>l'. stList_filter (Some null_inside) not_null = Inr (Some l') \<and>
            elems l' = filter not_null (elems null_inside)"
    by blast+
  have 1: "\<exists>l'. stList_copy (Some null_inside) (Some 7) = Inr (Some l') \<and>
         elems l' = [Addr 10, NULL, Addr 30] \<and> destructElement l' = Some 7"
    using t(1) by (simp add: f)
  have 2: "\<exists>l'. stList_filter (Some null_inside) not_null = Inr (Some l') \<and>
         elems l' = [Addr 10, Addr 30]"
    using t(2) by (simp add: f)
  show ?thesis
    using h 1 2 by blast
qed

lemma removeItem_loop_rep:
  assumes "fits xs t c"
  shows "k \<le> length xs \<Longrightarrow>
    \<exists>l'. stList_removeItem_loop (Some (rep xs t c d)) v (of_nat k) = Inr (Some l') \<and>
         valid_list l' \<and> elems l' = take k xs @ remove1 v (drop k xs) \<and>
         destructElement l' = d \<and> maxLength l' = c"
proof (induction "length xs - k" arbitrary: k)
  case 0
  then have "k = length xs" by simp
  then show ?case
    using valid_rep [OF assms, of d] elems_rep [OF assms, of d]
    by (subst stList_removeItem_loop.simps) (simp add: word_sless_alt)
next
  case (Suc m)
  then have k: "k < length xs" by simp
  have n: "length xs < 2 ^ 31" "k < 2 ^ 31"
    using fits_bound [OF assms] k by simp_all
  have dr: "drop k xs = xs ! k # drop (Suc k) xs"
    using k by (simp add: Cons_nth_drop_Suc)
  have c: "of_nat k <s (of_nat (length xs) :: int32)"
    using k n by (simp add: sless_of_nat32)
  have g: "stList_get (Some (rep xs t c d)) (of_nat k) = Inr (xs ! k)"
    by (rule get_rep [OF assms k])
  show ?case
  proof (cases "xs ! k = v")
    case True
    let ?l' = "rep (take k xs @ drop (Suc k) xs) (Cell (last xs) # t) c d"
    have f': "fits (take k xs @ drop (Suc k) xs) (Cell (last xs) # t) c"
      by (rule fits_remove [OF assms k])
    have "stList_removeItem_loop (Some (rep xs t c d)) v (of_nat k) = Inr (Some ?l')"
      by (subst stList_removeItem_loop.simps)
        (simp add: c g True remove_rep [OF assms k] del: of_nat_Suc)
    then show ?thesis
      using valid_rep [OF f', of d] elems_rep [OF f', of d] True
      by (intro exI [of _ ?l']) (simp add: dr)
  next
    case False
    have "m = length xs - Suc k" "Suc k \<le> length xs"
      using Suc.hyps(2) k by simp_all
    from Suc.hyps(1) [OF this] obtain l' where
      ih: "stList_removeItem_loop (Some (rep xs t c d)) v (of_nat (Suc k)) = Inr (Some l')"
      and r: "valid_list l'" "elems l' = take (Suc k) xs @ remove1 v (drop (Suc k) xs)"
        "destructElement l' = d" "maxLength l' = c"
      by blast
    have ih': "stList_removeItem_loop (Some (rep xs t c d)) v (of_nat k + 1) = Inr (Some l')"
      using ih by (simp only: of_nat_Suc_int32)
    have "stList_removeItem_loop (Some (rep xs t c d)) v (of_nat k) = Inr (Some l')"
      by (subst stList_removeItem_loop.simps) (simp add: c g False ih' del: of_nat_Suc)
    moreover have "take (Suc k) xs @ remove1 v (drop (Suc k) xs) = take k xs @ remove1 v (drop k xs)"
      using k False by (simp add: dr take_Suc_conv_app_nth)
    ultimately show ?thesis
      using r by auto
  qed
qed

text \<open>
  Property X6. \<^verbatim>\<open>stList_removeItem\<close> on a well-formed list removes the first element that is the value,
  by identity, and keeps the others in their order; without such an element the elements
  stay as they are.
\<close>

theorem X6_removeItem:
  "valid_list l \<longrightarrow>
     (\<exists>l'. stList_removeItem (Some l) v = Inr (Some l') \<and> valid_list l' \<and>
           elems l' = remove1 v (elems l) \<and> destructElement l' = destructElement l)"
proof
  assume "valid_list l"
  then obtain t where l: "l = rep (elems l) t (maxLength l) (destructElement l)"
    and f: "fits (elems l) t (maxLength l)"
    by (rule valid_list_rep)
  from removeItem_loop_rep [OF f, of 0 "destructElement l" v] obtain l' where
    "stList_removeItem_loop (Some (rep (elems l) t (maxLength l) (destructElement l))) v 0
       = Inr (Some l')"
    and r: "valid_list l'" "elems l' = remove1 v (elems l)"
      "destructElement l' = destructElement l"
    by auto
  then have "stList_removeItem (Some l) v = Inr (Some l')"
    using l by (simp add: stList_removeItem_def)
  with r show "\<exists>l'. stList_removeItem (Some l) v = Inr (Some l') \<and> valid_list l' \<and>
           elems l' = remove1 v (elems l) \<and> destructElement l' = destructElement l"
    by blast
qed

theorem X6_removeItem_witness:
  "valid_list abc_list \<and>
   (\<exists>l'. stList_removeItem (Some abc_list) (Addr 20) = Inr (Some l') \<and>
         elems l' = [Addr 10, Addr 30]) \<and>
   (\<exists>l'. stList_removeItem (Some abc_list) (Addr 40) = Inr (Some l') \<and>
         elems l' = [Addr 10, Addr 20, Addr 30])"
proof -
  have h: "valid_list abc_list"
    by (simp add: abc_list_facts)
  have 1: "\<exists>l'. stList_removeItem (Some abc_list) (Addr 20) = Inr (Some l') \<and>
         elems l' = remove1 (Addr 20) (elems abc_list)"
    using X6_removeItem [of abc_list "Addr 20"] h by blast
  have 2: "\<exists>l'. stList_removeItem (Some abc_list) (Addr 40) = Inr (Some l') \<and>
         elems l' = remove1 (Addr 40) (elems abc_list)"
    using X6_removeItem [of abc_list "Addr 40"] h by blast
  show ?thesis
    using h 1 2 by (simp add: abc_list_facts)
qed

lemma append_Some: "stList_append (Some j) v = Inr r \<Longrightarrow> \<exists>j'. r = Some j'"
  by (auto simp: stList_append_def bindF_def split: sum.splits if_splits prod.splits)

lemma append_seq_Some: "append_seq (Some j) vs = Inr r \<Longrightarrow> \<exists>j'. r = Some j'"
proof (induction vs arbitrary: j)
  case Nil
  then show ?case by auto
next
  case (Cons v vs)
  then obtain r1 where 1: "stList_append (Some j) v = Inr r1" and 2: "append_seq r1 vs = Inr r"
    by (auto simp: bindF_def split: sum.splits)
  from append_Some [OF 1] obtain j1 where "r1 = Some j1" by blast
  with 2 Cons.IH show ?case by blast
qed

lemma appendAll_pointee:
  assumes "\<And>a. p = Addr a \<Longrightarrow> valid_list (heap a)"
  shows "stList_appendAll (Some j) (deref heap p) = append_seq (Some j) (pointee_elems heap p)"
proof (cases p)
  case NULL
  then show ?thesis
    by (simp add: deref_def pointee_elems_def stList_appendAll_def
        stList_appendAll_loop.simps [of _ None] stList_length_def word_sless_alt)
next
  case (Addr a)
  with assms have "valid_list (heap a)" by simp
  then obtain t where l: "heap a = rep (elems (heap a)) t (maxLength (heap a)) (destructElement (heap a))"
    and f: "fits (elems (heap a)) t (maxLength (heap a))"
    by (rule valid_list_rep)
  have "stList_appendAll_loop (Some j) (Some (heap a)) 0 = append_seq (Some j) (elems (heap a))"
    using appendAll_loop_rep [OF f, of 0 "Some j" "destructElement (heap a)"] l by simp
  then show ?thesis
    using Addr by (simp add: deref_def pointee_elems_def stList_appendAll_def)
qed

lemma join_loop_rep:
  assumes "fits ps t c" "\<And>p a. p \<in> set ps \<Longrightarrow> p = Addr a \<Longrightarrow> valid_list (heap a)"
  shows "k \<le> length ps \<Longrightarrow>
    stList_join_loop heap (Some (rep ps t c d)) (Some j) (of_nat k) =
    append_seq (Some j) (concat (map (pointee_elems heap) (drop k ps)))"
proof (induction "length ps - k" arbitrary: k j)
  case 0
  then have "k = length ps" by simp
  then show ?case
    by (subst stList_join_loop.simps) (simp add: word_sless_alt)
next
  case (Suc m)
  then have k: "k < length ps" by simp
  have n: "length ps < 2 ^ 31" "k < 2 ^ 31"
    using fits_bound [OF assms(1)] k by simp_all
  have dr: "drop k ps = ps ! k # drop (Suc k) ps"
    using k by (simp add: Cons_nth_drop_Suc)
  have c: "of_nat k <s (of_nat (length ps) :: int32)"
    using k n by (simp add: sless_of_nat32)
  have g: "stList_get (Some (rep ps t c d)) (of_nat k) = Inr (ps ! k)"
    by (rule get_rep [OF assms(1) k])
  have a: "stList_appendAll (Some j) (deref heap (ps ! k)) =
           append_seq (Some j) (pointee_elems heap (ps ! k))"
    by (rule appendAll_pointee) (rule assms(2) [OF nth_mem [OF k]])
  have ih: "\<And>j. stList_join_loop heap (Some (rep ps t c d)) (Some j) (of_nat k + 1) =
      append_seq (Some j) (concat (map (pointee_elems heap) (drop (Suc k) ps)))"
    using Suc.hyps(1) [of "Suc k"] Suc.hyps(2) k
    by (simp only: of_nat_Suc_int32)
  have u: "stList_join_loop heap (Some (rep ps t c d)) (Some j) (of_nat k) =
      bindF (append_seq (Some j) (pointee_elems heap (ps ! k)))
        (\<lambda>joined'. stList_join_loop heap (Some (rep ps t c d)) joined' (of_nat k + 1))"
    by (subst stList_join_loop.simps) (simp add: c g a del: of_nat_Suc)
  show ?case
  proof (cases "append_seq (Some j) (pointee_elems heap (ps ! k))")
    case (Inl e)
    then show ?thesis
      by (simp add: u dr append_seq_append)
  next
    case (Inr r)
    from append_seq_Some [OF Inr] obtain j' where "r = Some j'" by blast
    with Inr show ?thesis
      by (simp add: u dr append_seq_append ih)
  qed
qed

text \<open>
  Property X7. \<^verbatim>\<open>stList_join\<close> on a well-formed list of pointers to well-formed lists returns a
  well-formed list without destructor that holds the elements of the lists pointed to, list
  after list in the order of the pointers and each in its own order, when these are at most
  1342177275 elements. A \<^verbatim>\<open>NULL\<close> among the pointers adds nothing.
\<close>

theorem X7_join:
  "valid_list ll \<and> (\<forall>a. Addr a \<in> set (elems ll) \<longrightarrow> valid_list (heap a)) \<and>
   length (concat (map (pointee_elems heap) (elems ll))) \<le> 1342177275 \<longrightarrow>
     (\<exists>l'. stList_join heap (Some ll) = Inr (Some l') \<and> valid_list l' \<and>
           elems l' = concat (map (pointee_elems heap) (elems ll)) \<and>
           destructElement l' = None)"
proof
  assume a: "valid_list ll \<and> (\<forall>a. Addr a \<in> set (elems ll) \<longrightarrow> valid_list (heap a)) \<and>
   length (concat (map (pointee_elems heap) (elems ll))) \<le> 1342177275"
  then obtain t where l: "ll = rep (elems ll) t (maxLength ll) (destructElement ll)"
    and f: "fits (elems ll) t (maxLength ll)"
    using valid_list_rep [of ll] by blast
  have v: "\<And>p a. p \<in> set (elems ll) \<Longrightarrow> p = Addr a \<Longrightarrow> valid_list (heap a)"
    using a by blast
  have "\<And>j. stList_join_loop heap (Some ll) (Some j) 0 =
      append_seq (Some j) (concat (map (pointee_elems heap) (elems ll)))"
    using join_loop_rep [OF f v, where k = 0 and d = "destructElement ll"] l by simp
  then have "stList_join heap (Some ll) =
      bindF stList_construct (\<lambda>list. append_seq list (concat (map (pointee_elems heap) (elems ll))))"
    by (simp add: stList_join_def empty_list_facts(1))
  then show "\<exists>l'. stList_join heap (Some ll) = Inr (Some l') \<and> valid_list l' \<and>
           elems l' = concat (map (pointee_elems heap) (elems ll)) \<and>
           destructElement l' = None"
    using construct_append_seq [of "concat (map (pointee_elems heap) (elems ll))"] a by simp
qed

lemma list_ab_facts:
  "valid_list list_ab" "elems list_ab = [Addr 3, Addr 4]"
  "pointee_elems heap_ab (Addr 3) = [Addr 10, Addr 20, Addr 30]"
  "pointee_elems heap_ab (Addr 4) = [Addr 1]"
  "valid_list (heap_ab a)"
  by (simp_all add: list_ab_def valid_list_def cells_def elems_def word_sle_eq
      pointee_elems_def deref_def heap_ab_def abc_list_def full_one_def)

theorem X7_join_witness:
  "valid_list list_ab \<and> valid_list (heap_ab 3) \<and> valid_list (heap_ab 4) \<and>
   length (concat (map (pointee_elems heap_ab) (elems list_ab))) \<le> 1342177275 \<and>
   (\<exists>l'. stList_join heap_ab (Some list_ab) = Inr (Some l') \<and>
         elems l' = [Addr 10, Addr 20, Addr 30, Addr 1])"
proof -
  have h: "valid_list list_ab \<and> (\<forall>a. Addr a \<in> set (elems list_ab) \<longrightarrow> valid_list (heap_ab a)) \<and>
   length (concat (map (pointee_elems heap_ab) (elems list_ab))) \<le> 1342177275"
    by (simp add: list_ab_facts)
  from X7_join [of list_ab heap_ab] h
  have "\<exists>l'. stList_join heap_ab (Some list_ab) = Inr (Some l') \<and>
           elems l' = concat (map (pointee_elems heap_ab) (elems list_ab))"
    by blast
  then show ?thesis
    by (simp add: list_ab_facts)
qed

end
